theory Spec2Isabelle
  imports Main "HOL-Library.Word" "HOL-Library.Signed_Division"
begin

unbundle bit_operations_syntax

section \<open>Node identifiers (dht/node.go)\<close>

text \<open>
  \<^verbatim>\<open>type NodeID [20]byte\<close>: a fixed array of 20 bytes. The model is a list of bytes; the
  array's length is the predicate \<open>valid_NodeID\<close>, which every Go value of the type
  satisfies.
\<close>

type_synonym byte = "8 word"
type_synonym NodeID = "byte list"

definition valid_NodeID :: "NodeID \<Rightarrow> bool" where
  "valid_NodeID n \<longleftrightarrow> length n = 20"

text \<open>
  \<^verbatim>\<open>func (n NodeID) Distance(other NodeID) NodeID\<close>: the loop writes
  \<^verbatim>\<open>distance[i] = n[i] ^ other[i]\<close> for every index of the array.
\<close>

definition Distance :: "NodeID \<Rightarrow> NodeID \<Rightarrow> NodeID" where
  "Distance n other = map2 (\<lambda>x y. x XOR y) n other"

text \<open>
  \<^verbatim>\<open>func lessThan(a, b NodeID) bool\<close> (dht/routing.go): the first index where the bytes
  differ decides; equal arrays are not less.
\<close>

fun lessThan :: "NodeID \<Rightarrow> NodeID \<Rightarrow> bool" where
  "lessThan (a # as) (b # bs) =
     (if a < b then True else if a > b then False else lessThan as bs)"
| "lessThan _ _ = False"

text \<open>
  The reading of a byte sequence as an unsigned big-endian integer, in which the
  specification states the order of distances.
\<close>

fun big_endian :: "byte list \<Rightarrow> nat" where
  "big_endian [] = 0"
| "big_endian (b # bs) = unat b * 256 ^ length bs + big_endian bs"

definition zero_NodeID :: NodeID where
  "zero_NodeID = replicate 20 0"

section \<open>Contacts (dht/node.go)\<close>

text \<open>
  \<^verbatim>\<open>time.Time\<close> values are abstract timestamps. Every read of the clock
  (\<^verbatim>\<open>time.Now()\<close>) is a parameter \<open>now\<close> of the operation that reads it.
\<close>

type_synonym Time = int

record Contact =
  ID :: NodeID
  Address :: string
  LastSeen :: Time

text \<open>\<^verbatim>\<open>func (c Contact) Equal(other Contact) bool { return c.ID == other.ID }\<close>\<close>

definition Equal :: "Contact \<Rightarrow> Contact \<Rightarrow> bool" where
  "Equal c other \<longleftrightarrow> ID c = ID other"

section \<open>K-buckets (dht/routing.go)\<close>

definition K :: nat where
  "K = 20"


text \<open>
  \<^verbatim>\<open>container/list\<close>'s doubly linked list is a HOL list, front first. The mutex is
  left out: the model is sequential. The field \<^verbatim>\<open>range\<close> with its two members
  is the pair of fields \<open>range_min\<close> and \<open>range_max\<close>.
\<close>

record KBucket =
  contacts :: "Contact list"
  lastSeen :: Time
  range_min :: NodeID
  range_max :: NodeID

definition NewKBucket :: "Time \<Rightarrow> KBucket" where
  "NewKBucket now =
     \<lparr>contacts = [], lastSeen = now,
      range_min = replicate 20 0xFF, range_max = replicate 20 0x00\<rparr>"

text \<open>
  The search loop of \<^verbatim>\<open>KBucket.AddContact\<close>: the position of the first element
  \<^verbatim>\<open>e\<close> with \<^verbatim>\<open>e.Value.(Contact).Equal(contact)\<close>, walking from the front.
\<close>

fun find_existing :: "Contact \<Rightarrow> Contact list \<Rightarrow> nat option" where
  "find_existing contact [] = None"
| "find_existing contact (e # es) =
     (if Equal e contact then Some 0 else map_option Suc (find_existing contact es))"

text \<open>\<^verbatim>\<open>list.MoveToBack(e)\<close> for the element at position \<open>i\<close>.\<close>

definition MoveToBack :: "nat \<Rightarrow> 'a list \<Rightarrow> 'a list" where
  "MoveToBack i l = take i l @ drop (Suc i) l @ [l ! i]"

text \<open>
  \<^verbatim>\<open>func (kb *KBucket) AddContact(contact Contact) bool\<close>. An existing element is
  moved to the back and then overwritten (\<^verbatim>\<open>e.Value = contact\<close>); the moved element
  is the last one of the list at that point. Otherwise the contact is pushed to the
  back while the bucket holds fewer than \<open>K\<close> elements, and the bucket is left as it
  is when it is full.
\<close>

definition KBucket_AddContact :: "KBucket \<Rightarrow> Contact \<Rightarrow> Time \<Rightarrow> bool \<times> KBucket" where
  "KBucket_AddContact kb contact now =
     (case find_existing contact (contacts kb) of
        Some i \<Rightarrow>
          (True, kb\<lparr>contacts := (MoveToBack i (contacts kb))
                                   [length (contacts kb) - 1 := contact],
                    lastSeen := now\<rparr>)
      | None \<Rightarrow>
          if length (contacts kb) < K then
            (True, kb\<lparr>contacts := contacts kb @ [contact],
                      lastSeen := now,
                      range_min := (if lessThan (ID contact) (range_min kb)
                                    then ID contact else range_min kb),
                      range_max := (if lessThan (range_max kb) (ID contact)
                                    then ID contact else range_max kb)\<rparr>)
          else (False, kb))"

text \<open>
  Run-time panics of the Go code are values: \<^verbatim>\<open>make\<close> with a negative capacity
  and an index outside an array or slice.
\<close>

datatype panic = MakesliceCapOutOfRange | IndexOutOfRange

text \<open>
  \<^verbatim>\<open>func (kb *KBucket) GetContacts(count int) []Contact\<close>. \<^verbatim>\<open>count\<close> is a
  signed \<^verbatim>\<open>int\<close>; it is clamped from above only, and
  \<^verbatim>\<open>make([]Contact, 0, count)\<close> panics when it is negative. The loop copies
  elements from the front while fewer than \<^verbatim>\<open>count\<close> are taken.
\<close>

definition GetContacts :: "KBucket \<Rightarrow> int \<Rightarrow> panic + Contact list" where
  "GetContacts kb count =
     (let count' = (if count > int (length (contacts kb))
                    then int (length (contacts kb)) else count)
      in if count' < 0 then Inl MakesliceCapOutOfRange
         else Inr (take (nat count') (contacts kb)))"

definition KBucket_Size :: "KBucket \<Rightarrow> nat" where
  "KBucket_Size kb = length (contacts kb)"

section \<open>The routing table (dht/routing.go)\<close>

record RoutingTable =
  localID :: NodeID
  buckets :: "KBucket list"

text \<open>
  \<^verbatim>\<open>NewRoutingTable\<close> makes 160 fresh buckets; the clock readings of the 160
  constructors are one parameter.
\<close>

definition NewRoutingTable :: "NodeID \<Rightarrow> Time \<Rightarrow> RoutingTable" where
  "NewRoutingTable lid now = \<lparr>localID = lid, buckets = replicate 160 (NewKBucket now)\<rparr>"

text \<open>
  The inner loop of \<^verbatim>\<open>getBucketIndex\<close>, from bit counter \<open>j\<close> on: the first
  \<open>j < 8\<close> with \<^verbatim>\<open>(distance[i] >> (7 - j)) & 0x1 != 0\<close>.
\<close>

function scan_bits :: "byte \<Rightarrow> nat \<Rightarrow> nat option" where
  "scan_bits d j =
     (if j < 8 then
        (if (drop_bit (7 - j) d) AND 0x1 \<noteq> 0 then Some j else scan_bits d (Suc j))
      else None)"
  by pat_completeness auto
termination
  by (relation "measure (\<lambda>(d, j). 8 - j)") auto

declare scan_bits.simps [simp del]

text \<open>The outer loop, over the bytes from index \<open>i\<close> on; it returns \<^verbatim>\<open>i*8 + j\<close>.\<close>

fun scan_bytes :: "byte list \<Rightarrow> nat \<Rightarrow> nat option" where
  "scan_bytes [] i = None"
| "scan_bytes (d # ds) i =
     (case scan_bits d 0 of
        Some j \<Rightarrow> Some (i * 8 + j)
      | None \<Rightarrow> scan_bytes ds (Suc i))"

text \<open>
  \<^verbatim>\<open>func (rt *RoutingTable) getBucketIndex(id NodeID) int\<close>: the index of the first
  1 bit of the distance to the local ID, and 159 when there is none.
\<close>

definition getBucketIndex :: "RoutingTable \<Rightarrow> NodeID \<Rightarrow> nat" where
  "getBucketIndex rt nid =
     (case scan_bytes (Distance (localID rt) nid) 0 of
        Some k \<Rightarrow> k
      | None \<Rightarrow> 159)"

text \<open>
  \<^verbatim>\<open>func (rt *RoutingTable) AddContact(contact Contact)\<close>: the result of the bucket's
  \<^verbatim>\<open>AddContact\<close> is dropped. Indexing \<^verbatim>\<open>rt.buckets\<close> outside the slice panics.
\<close>

definition RoutingTable_AddContact ::
    "RoutingTable \<Rightarrow> Contact \<Rightarrow> Time \<Rightarrow> panic + RoutingTable" where
  "RoutingTable_AddContact rt contact now =
     (let bucketIndex = getBucketIndex rt (ID contact) in
      if bucketIndex < length (buckets rt) then
        Inr (rt\<lparr>buckets := (buckets rt)
                   [bucketIndex := snd (KBucket_AddContact (buckets rt ! bucketIndex) contact now)]\<rparr>)
      else Inl IndexOutOfRange)"

text \<open>
  \<^verbatim>\<open>sort.Slice(contacts, less)\<close> of the Go standard library. A slice of at most 12
  elements is sorted by insertion: each element in turn, from the second on, is
  swapped towards the front while it is less than the element before it, so elements
  that are not less than each other keep their order. \<open>insertion_step\<close> takes the
  sorted front part with its last element first. A longer slice is sorted by
  pattern-defeating quicksort; its result is the same list whenever no two elements
  have equal keys (\<open>sort_Slice_unique\<close>), which is the case for the contacts of a
  routing table, and the order it gives to elements with equal keys is not modelled.
\<close>

fun insertion_step :: "('a \<Rightarrow> 'a \<Rightarrow> bool) \<Rightarrow> 'a \<Rightarrow> 'a list \<Rightarrow> 'a list" where
  "insertion_step lessfn x [] = [x]"
| "insertion_step lessfn x (y # ys) =
     (if lessfn x y then y # insertion_step lessfn x ys else x # y # ys)"

definition sort_Slice :: "('a \<Rightarrow> 'a \<Rightarrow> bool) \<Rightarrow> 'a list \<Rightarrow> 'a list" where
  "sort_Slice lessfn xs = rev (foldl (\<lambda>front x. insertion_step lessfn x front) [] xs)"

text \<open>
  The closure passed to \<^verbatim>\<open>sort.Slice\<close> in \<^verbatim>\<open>GetClosestContacts\<close> and in
  \<^verbatim>\<open>FindNode\<close>, on the elements at the two indices.
\<close>

definition closer :: "NodeID \<Rightarrow> Contact \<Rightarrow> Contact \<Rightarrow> bool" where
  "closer target ci cj \<longleftrightarrow>
     lessThan (Distance (ID ci) target) (Distance (ID cj) target)"

text \<open>Reading \<^verbatim>\<open>rt.buckets[i].GetContacts(count)\<close>, with the index check.\<close>

definition bucket_GetContacts :: "RoutingTable \<Rightarrow> nat \<Rightarrow> int \<Rightarrow> panic + Contact list" where
  "bucket_GetContacts rt i count =
     (if i < length (buckets rt) then GetContacts (buckets rt ! i) count
      else Inl IndexOutOfRange)"

text \<open>
  The loop of \<^verbatim>\<open>GetClosestContacts\<close> that walks outwards from the target's bucket:
  \<^verbatim>\<open>for i := 1; len(contacts) < count && (bucketIndex-i >= 0 || bucketIndex+i < 160); i++\<close>.
  The test \<^verbatim>\<open>bucketIndex-i >= 0\<close> on Go's signed integers is \<open>i \<le> bucketIndex\<close>
  on the naturals.
\<close>

function neighbours_loop ::
    "RoutingTable \<Rightarrow> nat \<Rightarrow> int \<Rightarrow> nat \<Rightarrow> Contact list \<Rightarrow> panic + Contact list" where
  "neighbours_loop rt bucketIndex count i cs =
     (if int (length cs) < count \<and> (i \<le> bucketIndex \<or> bucketIndex + i < 160) then
        (case (if i \<le> bucketIndex
               then (case bucket_GetContacts rt (bucketIndex - i) (count - int (length cs)) of
                       Inl p \<Rightarrow> Inl p
                     | Inr left \<Rightarrow> Inr (cs @ left))
               else Inr cs) of
           Inl p \<Rightarrow> Inl p
         | Inr cs1 \<Rightarrow>
             (case (if bucketIndex + i < 160 \<and> int (length cs1) < count
                    then (case bucket_GetContacts rt (bucketIndex + i) (count - int (length cs1)) of
                            Inl p \<Rightarrow> Inl p
                          | Inr right \<Rightarrow> Inr (cs1 @ right))
                    else Inr cs1) of
                Inl p \<Rightarrow> Inl p
              | Inr cs2 \<Rightarrow> neighbours_loop rt bucketIndex count (Suc i) cs2))
      else Inr cs)"
  by pat_completeness auto
termination
  by (relation "measure (\<lambda>(rt, bucketIndex, count, i, cs). (bucketIndex + 160) - i)") auto

declare neighbours_loop.simps [simp del]

text \<open>
  \<^verbatim>\<open>func (rt *RoutingTable) GetClosestContacts(target NodeID, count int) []Contact\<close>:
  the target's bucket, then the neighbours, then the sort by distance to the target
  and the cut to \<^verbatim>\<open>count\<close> elements.
\<close>

definition GetClosestContacts :: "RoutingTable \<Rightarrow> NodeID \<Rightarrow> int \<Rightarrow> panic + Contact list" where
  "GetClosestContacts rt target count =
     (let bucketIndex = getBucketIndex rt target in
      case bucket_GetContacts rt bucketIndex count of
        Inl p \<Rightarrow> Inl p
      | Inr cs0 \<Rightarrow>
          (case neighbours_loop rt bucketIndex count 1 cs0 of
             Inl p \<Rightarrow> Inl p
           | Inr cs \<Rightarrow>
               (let sorted_cs = sort_Slice (closer target) cs in
                Inr (if int (length sorted_cs) > count
                     then take (nat count) sorted_cs else sorted_cs))))"

text \<open>
  \<^verbatim>\<open>func (rt *RoutingTable) GetRandomIDFromBucket(bucketIndex int) NodeID\<close>. Go's
  \<^verbatim>\<open>/\<close> and \<^verbatim>\<open>%\<close> on \<^verbatim>\<open>int\<close> truncate towards zero (\<open>sdiv\<close>, \<open>smod\<close>);
  \<^verbatim>\<open>byte(1 << (7 - bitIndex))\<close> is a shift of a byte, and indexing the array outside
  its 20 elements panics.
\<close>

definition GetRandomIDFromBucket :: "RoutingTable \<Rightarrow> int \<Rightarrow> panic + NodeID" where
  "GetRandomIDFromBucket rt bucketIndex =
     (let nid = localID rt;
          byteIndex = bucketIndex sdiv 8;
          bitIndex = bucketIndex smod 8
      in if 0 \<le> byteIndex \<and> byteIndex < int (length nid) then
           Inr (nid[nat byteIndex := (nid ! nat byteIndex) XOR push_bit (nat (7 - bitIndex)) 1])
         else Inl IndexOutOfRange)"

text \<open>\<^verbatim>\<open>func (rt *RoutingTable) Size() int\<close>: the sum of the buckets' sizes.\<close>

definition RoutingTable_Size :: "RoutingTable \<Rightarrow> nat" where
  "RoutingTable_Size rt = sum_list (map KBucket_Size (buckets rt))"

section \<open>Vocabulary of the specification\<close>

text \<open>
  Bit \<open>k\<close> of a byte sequence, counted from 0 at the most significant bit of the
  first byte: the bit positions in which the specification numbers the buckets.
\<close>

definition NodeID_bit :: "byte list \<Rightarrow> nat \<Rightarrow> bool" where
  "NodeID_bit n k \<longleftrightarrow> k < 8 * length n \<and> bit (n ! (k div 8)) (7 - k mod 8)"

text \<open>The two contacts of the specification's end-to-end scenario.\<close>

definition id_80 :: NodeID where
  "id_80 = 0x80 # replicate 19 0"

definition id_01 :: NodeID where
  "id_01 = replicate 19 0 @ [0x01]"

section \<open>Sequences of operations\<close>

text \<open>
  A sequence of \<^verbatim>\<open>AddContact\<close> calls on one bucket, each with its contact and its
  clock reading. \<^verbatim>\<open>GetContacts\<close> and \<^verbatim>\<open>Size\<close> do not write to the bucket.
\<close>

fun KBucket_AddContacts :: "KBucket \<Rightarrow> (Contact \<times> Time) list \<Rightarrow> KBucket" where
  "KBucket_AddContacts kb [] = kb"
| "KBucket_AddContacts kb ((contact, now) # ops) =
     KBucket_AddContacts (snd (KBucket_AddContact kb contact now)) ops"

text \<open>Example contacts: the ID is 19 zero bytes followed by the byte \<open>n\<close>.\<close>

definition example_contact :: "nat \<Rightarrow> Contact" where
  "example_contact n =
     \<lparr>ID = replicate 19 0 @ [of_nat n], Address = ''10.0.0.1:8000'', LastSeen = int n\<rparr>"

definition example_full_bucket :: KBucket where
  "example_full_bucket =
     KBucket_AddContacts (NewKBucket 0) (map (\<lambda>n. (example_contact n, int n)) [1..<21])"

text \<open>A later observation of example contact 3 at another address.\<close>

definition example_update :: Contact where
  "example_update =
     \<lparr>ID = replicate 19 0 @ [3], Address = ''192.168.0.7:9000'', LastSeen = 500\<rparr>"

text \<open>
  Calls on a routing table: \<^verbatim>\<open>AddContact\<close> with its contact and clock reading, and
  \<^verbatim>\<open>GetClosestContacts\<close> with its target and count. A panic ends the run.
\<close>

datatype operation = OpAddContact Contact Time | OpGetClosestContacts NodeID int

fun apply_operation :: "RoutingTable \<Rightarrow> operation \<Rightarrow> panic + RoutingTable" where
  "apply_operation rt (OpAddContact contact now) = RoutingTable_AddContact rt contact now"
| "apply_operation rt (OpGetClosestContacts target count) =
     (case GetClosestContacts rt target count of
        Inl p \<Rightarrow> Inl p
      | Inr cs \<Rightarrow> Inr rt)"

fun run_operations :: "RoutingTable \<Rightarrow> operation list \<Rightarrow> panic + RoutingTable" where
  "run_operations rt [] = Inr rt"
| "run_operations rt (op # ops) =
     (case apply_operation rt op of
        Inl p \<Rightarrow> Inl p
      | Inr rt' \<Rightarrow> run_operations rt' ops)"

text \<open>The arguments of a call are Go values: every NodeID in them has 20 bytes.\<close>

fun valid_operation :: "operation \<Rightarrow> bool" where
  "valid_operation (OpAddContact contact now) = valid_NodeID (ID contact)"
| "valid_operation (OpGetClosestContacts target count) = valid_NodeID target"

text \<open>All contacts of a table, bucket after bucket.\<close>

definition all_contacts :: "RoutingTable \<Rightarrow> Contact list" where
  "all_contacts rt = concat (map contacts (buckets rt))"

text \<open>
  The highest set bit of a distance is at position \<open>i\<close>: bit \<open>i\<close> is set and no bit
  before it is.
\<close>

definition highest_set_bit_at :: "byte list \<Rightarrow> nat \<Rightarrow> bool" where
  "highest_set_bit_at d i \<longleftrightarrow> NodeID_bit d i \<and> (\<forall>j \<in> {0..<i}. \<not> NodeID_bit d j)"

text \<open>
  The routing-table invariant in the words of the specification: the bucket at index
  \<open>i\<close> holds only contacts whose distance to the local ID has its highest set bit at
  position \<open>i\<close>.
\<close>

definition specified_bucket_invariant :: "RoutingTable \<Rightarrow> bool" where
  "specified_bucket_invariant rt \<longleftrightarrow>
     (\<forall>i \<in> {0..<length (buckets rt)}. \<forall>c \<in> set (contacts (buckets rt ! i)).
        highest_set_bit_at (Distance (localID rt) (ID c)) i)"

text \<open>
  The invariant the code keeps: 160 buckets, 20-byte IDs, every contact in the bucket
  that \<open>getBucketIndex\<close> gives for its ID, no NodeID twice in a bucket, and at most
  \<open>K\<close> contacts in a bucket.
\<close>

definition table_invariant :: "RoutingTable \<Rightarrow> bool" where
  "table_invariant rt \<longleftrightarrow>
     valid_NodeID (localID rt) \<and> length (buckets rt) = 160 \<and>
     (\<forall>i \<in> {0..<160}.
        (\<forall>c \<in> set (contacts (buckets rt ! i)).
           valid_NodeID (ID c) \<and> getBucketIndex rt (ID c) = i) \<and>
        distinct (map ID (contacts (buckets rt ! i))) \<and>
        length (contacts (buckets rt ! i)) \<le> K)"

text \<open>A contact whose ID is the local ID of the table it is added to.\<close>

definition self_contact :: Contact where
  "self_contact = \<lparr>ID = zero_NodeID, Address = ''127.0.0.1:8000'', LastSeen = 0\<rparr>"

text \<open>
  What holds of the pool collected by \<^verbatim>\<open>GetClosestContacts\<close> before round \<open>i\<close> of
  its loop, for the target's bucket \<open>b\<close>: the pool has no NodeID twice, and its
  contacts are contacts of the table from buckets less than \<open>i\<close> away from \<open>b\<close>.
\<close>

definition pool_invariant :: "RoutingTable \<Rightarrow> nat \<Rightarrow> nat \<Rightarrow> Contact list \<Rightarrow> bool" where
  "pool_invariant rt b i cs \<longleftrightarrow>
     distinct (map ID cs) \<and>
     (\<forall>c \<in> set cs.
        c \<in> set (all_contacts rt) \<and> valid_NodeID (ID c) \<and>
        b < getBucketIndex rt (ID c) + i \<and> getBucketIndex rt (ID c) < b + i)"

text \<open>The count of a \<^verbatim>\<open>GetClosestContacts\<close> call is not negative.\<close>

fun count_nonneg :: "operation \<Rightarrow> bool" where
  "count_nonneg (OpAddContact contact now) = True"
| "count_nonneg (OpGetClosestContacts target count) = (0 \<le> count)"

text \<open>
  An example run on a table with the all-zero local ID: three contacts, a query, and
  the table's own ID as a contact.
\<close>

definition example_operations :: "operation list" where
  "example_operations =
     [OpAddContact (example_contact 1) 1, OpAddContact (example_contact 2) 2,
      OpAddContact (example_contact 3) 3, OpGetClosestContacts id_01 3,
      OpAddContact self_contact 4]"

definition example_table :: RoutingTable where
  "example_table =
     (case run_operations (NewRoutingTable zero_NodeID 0) example_operations of
        Inl p \<Rightarrow> NewRoutingTable zero_NodeID 0
      | Inr rt \<Rightarrow> rt)"

section \<open>The FindNode request handler (dht/discovery.go)\<close>

text \<open>
  \<^verbatim>\<open>encoding/hex\<close> of the Go standard library. \<^verbatim>\<open>fromHexChar\<close> gives the value of
  a hexadecimal digit (\<^verbatim>\<open>0-9\<close>, \<^verbatim>\<open>a-f\<close>, \<^verbatim>\<open>A-F\<close>).
\<close>

definition fromHexChar :: "char \<Rightarrow> byte option" where
  "fromHexChar c =
     (let n = (of_char c :: nat) in
      if 48 \<le> n \<and> n \<le> 57 then Some (of_nat (n - 48))
      else if 97 \<le> n \<and> n \<le> 102 then Some (of_nat (n - 97 + 10))
      else if 65 \<le> n \<and> n \<le> 70 then Some (of_nat (n - 65 + 10))
      else None)"

datatype hex_error = InvalidByteError char | ErrLength

text \<open>
  \<^verbatim>\<open>hex.Decode(dst, src)\<close> reads \<^verbatim>\<open>src\<close> two characters at a time and writes one
  byte for each pair to \<^verbatim>\<open>dst[i]\<close>. It returns the number of bytes written and an
  error at the first character that is no hexadecimal digit, or \<^verbatim>\<open>ErrLength\<close> for a
  last single digit. It does not check the length of \<^verbatim>\<open>dst\<close>: writing past its end
  panics. The result is the destination, the count and the error.
\<close>

fun hex_Decode_from ::
    "nat \<Rightarrow> byte list \<Rightarrow> string \<Rightarrow> panic + (byte list \<times> nat \<times> hex_error option)" where
  "hex_Decode_from i dst (p # q # src) =
     (case fromHexChar p of
        None \<Rightarrow> Inr (dst, i, Some (InvalidByteError p))
      | Some a \<Rightarrow>
          (case fromHexChar q of
             None \<Rightarrow> Inr (dst, i, Some (InvalidByteError q))
           | Some b \<Rightarrow>
               if i < length dst
               then hex_Decode_from (Suc i) (dst[i := push_bit 4 a OR b]) src
               else Inl IndexOutOfRange))"
| "hex_Decode_from i dst [p] =
     (case fromHexChar p of
        None \<Rightarrow> Inr (dst, i, Some (InvalidByteError p))
      | Some a \<Rightarrow> Inr (dst, i, Some ErrLength))"
| "hex_Decode_from i dst [] = Inr (dst, i, None)"

definition hex_Decode :: "byte list \<Rightarrow> string \<Rightarrow> panic + (byte list \<times> nat \<times> hex_error option)" where
  "hex_Decode dst src = hex_Decode_from 0 dst src"

text \<open>
  A request carries the \<^verbatim>\<open>target\<close> query parameter or not;
  \<^verbatim>\<open>r.URL.Query().Get("target")\<close> is the empty string when it is missing.
\<close>

definition Query_Get_target :: "string option \<Rightarrow> string" where
  "Query_Get_target param = (case param of None \<Rightarrow> [] | Some v \<Rightarrow> v)"

text \<open>
  The response: \<^verbatim>\<open>http.Error(w, msg, http.StatusBadRequest)\<close>, or the JSON object
  with the contacts and status 200.
\<close>

datatype response = BadRequest string | OK_contacts "Contact list"

text \<open>
  \<^verbatim>\<open>func (dht *DHT) handleFindNode(w, r)\<close>, on the routing table of the node. The
  target is decoded into a zero-initialised \<^verbatim>\<open>NodeID\<close>. The handler returns the
  response and the routing table it leaves.
\<close>

definition handleFindNode :: "RoutingTable \<Rightarrow> string option \<Rightarrow> panic + (response \<times> RoutingTable)" where
  "handleFindNode rt param =
     (let targetStr = Query_Get_target param in
      if targetStr = [] then Inr (BadRequest ''Missing target parameter'', rt)
      else
        (case hex_Decode (replicate 20 0) targetStr of
           Inl p \<Rightarrow> Inl p
         | Inr (targetID, n, err) \<Rightarrow>
             if err \<noteq> None \<or> n \<noteq> 20 then Inr (BadRequest ''Invalid target ID'', rt)
             else
               (case GetClosestContacts rt targetID (int K) of
                  Inl p \<Rightarrow> Inl p
                | Inr closestContacts \<Rightarrow> Inr (OK_contacts closestContacts, rt))))"

text \<open>A string is valid hexadecimal: an even number of hexadecimal digits.\<close>

definition valid_hex :: "string \<Rightarrow> bool" where
  "valid_hex s \<longleftrightarrow> even (length s) \<and> (\<forall>c \<in> set s. fromHexChar c \<noteq> None)"

text \<open>A target of 42 hexadecimal digits followed by two characters that are none.\<close>

definition overlong_target :: string where
  "overlong_target = replicate 42 CHR ''0'' @ ''zz''"

section \<open>The iterative lookup (dht/discovery.go)\<close>














section \<open>The distance function\<close>

lemma length_Distance: "length (Distance a b) = min (length a) (length b)"
  by (simp add: Distance_def)

lemma Distance_commute: "Distance a b = Distance b a"
proof (induction a arbitrary: b)
  case Nil
  then show ?case by (simp add: Distance_def)
next
  case (Cons x xs)
  then show ?case by (cases b) (simp_all add: Distance_def xor.commute)
qed

lemma Distance_self: "Distance a a = replicate (length a) 0"
  by (induction a) (simp_all add: Distance_def)

lemma big_endian_bound: "big_endian bs < 256 ^ length bs"
proof (induction bs)
  case Nil
  then show ?case by simp
next
  case (Cons b bs)
  have "unat b \<le> 255" using unsigned_less [of b, where ?'a = nat] by simp
  then have "unat b * 256 ^ length bs \<le> 255 * 256 ^ length bs"
    by (rule mult_le_mono1)
  with Cons have "unat b * 256 ^ length bs + big_endian bs
      < 255 * 256 ^ length bs + 256 ^ length bs"
    by linarith
  then show ?case by simp
qed

lemma xor_add_and_int: "(x XOR y) + 2 * (x AND y) = x + (y::int)"
proof -
  have d: "(x XOR y) AND (x AND y) = 0"
    by (rule bit_eqI) (auto simp: bit_simps)
  have o: "(x XOR y) OR (x AND y) = x OR y"
    by (rule bit_eqI) (auto simp: bit_simps)
  have "(x XOR y) + (x AND y) = x OR y"
    using disjunctive_add_eq_or [OF d] o by simp
  moreover have "(x AND y) + (x OR y) = x + y"
    by (rule plus_and_or)
  ultimately show ?thesis by simp
qed

lemma unat_xor_le: "unat (x XOR y) \<le> unat x + unat (y::byte)"
proof -
  have "0 \<le> uint x AND uint y" by simp
  then have "uint x XOR uint y \<le> uint x + uint y"
    using xor_add_and_int [of "uint x" "uint y"] by linarith
  then have "uint (x XOR y) \<le> uint x + uint y"
    by (simp add: unsigned_xor_eq)
  moreover have "uint (x XOR y) = int (unat (x XOR y))"
      "uint x = int (unat x)" "uint y = int (unat y)"
    by simp_all
  ultimately show ?thesis by linarith
qed

lemma big_endian_xor_le:
  "length xs = length ys \<Longrightarrow>
   big_endian (map2 (\<lambda>x y. x XOR y) xs ys) \<le> big_endian xs + big_endian ys"
proof (induction xs ys rule: list_induct2)
  case Nil
  then show ?case by simp
next
  case (Cons x xs y ys)
  have "unat (x XOR y) * 256 ^ length ys \<le> (unat x + unat y) * 256 ^ length ys"
    by (rule mult_le_mono1) (rule unat_xor_le)
  with Cons show ?case by (simp add: add_mult_distrib)
qed

lemma Distance_compose:
  "length a = length b \<Longrightarrow> length b = length c \<Longrightarrow>
   Distance a c = map2 (\<lambda>x y. x XOR y) (Distance a b) (Distance b c)"
proof (induction a b arbitrary: c rule: list_induct2)
  case Nil
  then show ?case by (simp add: Distance_def)
next
  case (Cons x xs y ys)
  then obtain z zs where c: "c = z # zs" and len: "length ys = length zs"
    by (cases c) auto
  have "x XOR z = (x XOR y) XOR (y XOR z)"
    by (simp add: xor.assoc [symmetric]) (simp add: xor.assoc)
  with Cons.IH [OF len] c show ?case by (simp add: Distance_def)
qed

lemma Distance_triangle:
  assumes "length a = length b" and "length b = length c"
  shows "big_endian (Distance a c) \<le> big_endian (Distance a b) + big_endian (Distance b c)"
proof -
  have "length (Distance a b) = length (Distance b c)"
    using assms by (simp add: length_Distance)
  then show ?thesis
    using big_endian_xor_le Distance_compose [OF assms] by simp
qed

lemma lessThan_big_endian:
  "length a = length b \<Longrightarrow> lessThan a b \<longleftrightarrow> big_endian a < big_endian b"
proof (induction a b rule: list_induct2)
  case Nil
  then show ?case by simp
next
  case (Cons x xs y ys)
  have bx: "big_endian xs < 256 ^ length ys" and by': "big_endian ys < 256 ^ length ys"
    using big_endian_bound [of xs] big_endian_bound [of ys] Cons.hyps by simp_all
  show ?case
  proof (cases "x < y")
    case True
    then have "Suc (unat x) \<le> unat y" by (simp add: word_less_nat_alt)
    then have "Suc (unat x) * 256 ^ length ys \<le> unat y * 256 ^ length ys"
      by (rule mult_le_mono1)
    with bx True Cons.hyps show ?thesis by simp
  next
    case False
    show ?thesis
    proof (cases "y < x")
      case True
      then have "Suc (unat y) \<le> unat x" by (simp add: word_less_nat_alt)
      then have "Suc (unat y) * 256 ^ length ys \<le> unat x * 256 ^ length ys"
        by (rule mult_le_mono1)
      with by' True \<open>\<not> x < y\<close> Cons.hyps show ?thesis by simp
    next
      case False
      with \<open>\<not> x < y\<close> have "x = y" by simp
      with Cons show ?thesis by simp
    qed
  qed
qed

section \<open>The bucket index\<close>

lemma NodeID_bit_Nil: "NodeID_bit [] k = False"
  by (simp add: NodeID_bit_def)

lemma NodeID_bit_Cons:
  "NodeID_bit (d # ds) k = (if k < 8 then bit d (7 - k) else NodeID_bit ds (k - 8))"
proof (cases "k < 8")
  case True
  then show ?thesis by (simp add: NodeID_bit_def)
next
  case False
  then have "k div 8 = Suc ((k - 8) div 8)" and "k mod 8 = (k - 8) mod 8"
    by (simp_all add: le_div_geq le_mod_geq)
  with False show ?thesis by (auto simp add: NodeID_bit_def)
qed

lemma nat_bit_imp_ge: "bit (m::nat) n \<Longrightarrow> 2 ^ n \<le> m"
proof (rule ccontr)
  assume b: "bit m n" and "\<not> 2 ^ n \<le> m"
  then have "m div 2 ^ n = 0" by simp
  with b show False by (simp add: bit_iff_odd)
qed

lemma nat_no_bit_imp_less:
  assumes "\<And>k. n \<le> k \<Longrightarrow> \<not> bit (m::nat) k"
  shows "m < 2 ^ n"
proof -
  have "take_bit n m = m"
  proof (rule bit_eqI)
    fix k
    have "bit m k \<Longrightarrow> k < n" using assms [of k] by (cases "k < n") simp_all
    then show "bit (take_bit n m) k = bit m k" by (auto simp add: bit_take_bit_iff)
  qed
  then show ?thesis by (simp add: take_bit_nat_eq_self_iff)
qed

lemma shift_test_bit: "(drop_bit n (d::byte)) AND 0x1 \<noteq> 0 \<longleftrightarrow> bit d n"
  by (simp add: bit_iff_and_drop_bit_eq_1 and_one_eq)

lemma scan_bits_Some:
  "scan_bits d j0 = Some j \<Longrightarrow>
   j0 \<le> j \<and> j < 8 \<and> bit d (7 - j) \<and> (\<forall>j'. j0 \<le> j' \<and> j' < j \<longrightarrow> \<not> bit d (7 - j'))"
proof (induction d j0 rule: scan_bits.induct)
  case (1 d j0)
  show ?case
  proof (cases "j0 < 8 \<and> \<not> bit d (7 - j0)")
    case True
    with "1.prems" have "scan_bits d (Suc j0) = Some j"
      by (simp add: scan_bits.simps [of d j0] shift_test_bit)
    with "1.IH" True have ih: "Suc j0 \<le> j \<and> j < 8 \<and> bit d (7 - j) \<and>
        (\<forall>j'. Suc j0 \<le> j' \<and> j' < j \<longrightarrow> \<not> bit d (7 - j'))"
      by (simp add: shift_test_bit)
    have "\<not> bit d (7 - j')" if "j0 \<le> j'" "j' < j" for j'
    proof (cases "j' = j0")
      case True
      with \<open>j0 < 8 \<and> \<not> bit d (7 - j0)\<close> show ?thesis by simp
    next
      case False
      with that ih show ?thesis by auto
    qed
    with ih show ?thesis by auto
  next
    case False
    with "1.prems" show ?thesis
      by (auto simp add: scan_bits.simps [of d j0] shift_test_bit split: if_splits)
  qed
qed

lemma scan_bits_None:
  "scan_bits d j0 = None \<Longrightarrow> j0 \<le> j' \<Longrightarrow> j' < 8 \<Longrightarrow> \<not> bit d (7 - j')"
proof (induction d j0 rule: scan_bits.induct)
  case (1 d j0)
  from "1.prems" have j0: "j0 < 8" by simp
  with "1.prems" have nb: "\<not> bit d (7 - j0)" and rest: "scan_bits d (Suc j0) = None"
    by (auto simp add: scan_bits.simps [of d j0] shift_test_bit split: if_splits)
  show ?case
  proof (cases "j' = j0")
    case True
    with nb show ?thesis by simp
  next
    case False
    with "1.prems" have "Suc j0 \<le> j'" by simp
    with "1.IH" j0 nb rest "1.prems" show ?thesis by (simp add: shift_test_bit)
  qed
qed

lemma scan_bits_zero: "scan_bits 0 j = None"
proof (induction "8 - j" arbitrary: j)
  case 0
  then show ?case by (simp add: scan_bits.simps [of 0 j])
next
  case (Suc n)
  then have "scan_bits 0 (Suc j) = None" by simp
  then show ?case by (simp add: scan_bits.simps [of 0 j])
qed

lemma scan_bits_None_zero: "scan_bits d 0 = None \<longleftrightarrow> d = 0"
proof
  assume n: "scan_bits d 0 = None"
  show "d = 0"
  proof (rule bit_eqI)
    fix k
    assume "possible_bit TYPE(byte) k"
    then have k: "k < 8" by (simp add: possible_bit_def)
    then have "\<not> bit d (7 - (7 - k))"
      using scan_bits_None [OF n, of "7 - k"] by simp
    with k show "bit d k = bit (0::byte) k" by simp
  qed
next
  assume "d = 0"
  then show "scan_bits d 0 = None" by (simp add: scan_bits_zero)
qed


lemma scan_bits_value:
  assumes "scan_bits d 0 = Some j"
  shows "2 ^ (7 - j) \<le> unat d \<and> unat d < 2 ^ (8 - j)"
proof -
  from scan_bits_Some [OF assms]
  have j: "j < 8" and b: "bit d (7 - j)" and nb: "\<And>j'. j' < j \<Longrightarrow> \<not> bit d (7 - j')"
    by auto
  from b have "bit (unat d) (7 - j)" by (simp add: bit_unsigned_iff)
  then have lo: "2 ^ (7 - j) \<le> unat d" by (rule nat_bit_imp_ge)
  have "\<not> bit (unat d) k" if "8 - j \<le> k" for k
  proof (cases "k < 8")
    case True
    with that j have "7 - k < j" and "7 - (7 - k) = k" by simp_all
    with nb [of "7 - k"] show ?thesis by (simp add: bit_unsigned_iff)
  next
    case False
    then show ?thesis using bit_imp_le_length [of d k] by (auto simp add: bit_unsigned_iff)
  qed
  then have "unat d < 2 ^ (8 - j)" by (rule nat_no_bit_imp_less)
  with lo show ?thesis by simp
qed

lemma scan_bytes_shift: "scan_bytes ds i = map_option (\<lambda>k. i * 8 + k) (scan_bytes ds 0)"
proof (induction ds arbitrary: i)
  case Nil
  then show ?case by simp
next
  case (Cons d ds)
  have "scan_bytes ds (Suc i) = map_option (\<lambda>k. Suc i * 8 + k) (scan_bytes ds 0)"
    and "scan_bytes ds (Suc 0) = map_option (\<lambda>k. Suc 0 * 8 + k) (scan_bytes ds 0)"
    by (rule Cons.IH)+
  then show ?case
    by (cases "scan_bits d 0"; cases "scan_bytes ds 0") simp_all
qed

lemma scan_bytes_Cons:
  "scan_bytes (d # ds) 0 =
     (case scan_bits d 0 of Some j \<Rightarrow> Some j
      | None \<Rightarrow> map_option (\<lambda>k. 8 + k) (scan_bytes ds 0))"
  using scan_bytes_shift [of ds "Suc 0"] by (simp split: option.splits)

lemmas scan_bytes_unfold = scan_bytes.simps(2)

declare scan_bytes.simps(2) [simp del]

lemma scan_bytes_None: "scan_bytes ds 0 = None \<longleftrightarrow> ds = replicate (length ds) 0"
  by (induction ds)
    (auto simp add: scan_bytes_Cons scan_bits_None_zero scan_bits_zero split: option.splits)

lemma scan_bytes_Some:
  "scan_bytes ds 0 = Some k \<Longrightarrow>
   k < 8 * length ds \<and> NodeID_bit ds k \<and> (\<forall>j<k. \<not> NodeID_bit ds j)"
proof (induction ds arbitrary: k)
  case Nil
  then show ?case by simp
next
  case (Cons d ds)
  show ?case
  proof (cases "scan_bits d 0")
    case (Some j)
    with Cons.prems have "k = j" by (simp add: scan_bytes_Cons)
    with scan_bits_Some [OF Some] show ?thesis by (auto simp add: NodeID_bit_Cons)
  next
    case None
    with Cons.prems obtain k' where k': "scan_bytes ds 0 = Some k'" and k: "k = 8 + k'"
      by (auto simp add: scan_bytes_Cons)
    from Cons.IH [OF k'] have ih: "k' < 8 * length ds" "NodeID_bit ds k'"
        "\<And>j. j < k' \<Longrightarrow> \<not> NodeID_bit ds j"
      by auto
    have "\<not> NodeID_bit (d # ds) j" if "j < k" for j
    proof (cases "j < 8")
      case True
      with scan_bits_None [OF None, of j] show ?thesis by (simp add: NodeID_bit_Cons)
    next
      case False
      with that k have "j - 8 < k'" by simp
      with ih(3) False show ?thesis by (simp add: NodeID_bit_Cons)
    qed
    with ih k show ?thesis by (simp add: NodeID_bit_Cons)
  qed
qed

lemma scan_bytes_value:
  "scan_bytes ds 0 = Some k \<Longrightarrow>
   2 ^ (8 * length ds - 1 - k) \<le> big_endian ds \<and> big_endian ds < 2 ^ (8 * length ds - k)"
proof (induction ds arbitrary: k)
  case Nil
  then show ?case by simp
next
  case (Cons d ds)
  have p: "(256::nat) ^ length ds = 2 ^ (8 * length ds)"
    by (simp add: power_mult)
  show ?case
  proof (cases "scan_bits d 0")
    case (Some j)
    with Cons.prems have kj: "k = j" by (simp add: scan_bytes_Cons)
    from scan_bits_Some [OF Some] have j: "j < 8" by simp
    from scan_bits_value [OF Some] have lo: "2 ^ (7 - j) \<le> unat d" and hi: "Suc (unat d) \<le> 2 ^ (8 - j)"
      by simp_all
    have "2 ^ (7 - j) * 2 ^ (8 * length ds) \<le> unat d * 2 ^ (8 * length ds)"
      using lo by (rule mult_le_mono1)
    then have l: "2 ^ (7 - j + 8 * length ds) \<le> unat d * 2 ^ (8 * length ds)"
      by (simp add: power_add)
    have "Suc (unat d) * 2 ^ (8 * length ds) \<le> 2 ^ (8 - j) * 2 ^ (8 * length ds)"
      using hi by (rule mult_le_mono1)
    then have h: "unat d * 2 ^ (8 * length ds) + 2 ^ (8 * length ds) \<le> 2 ^ (8 - j + 8 * length ds)"
      by (simp add: power_add)
    have e1: "8 * length (d # ds) - 1 - k = 7 - j + 8 * length ds"
      and e2: "8 * length (d # ds) - k = 8 - j + 8 * length ds"
      using j kj by simp_all
    from l h big_endian_bound [of ds]
    have "2 ^ (7 - j + 8 * length ds) \<le> big_endian (d # ds) \<and>
        big_endian (d # ds) < 2 ^ (8 - j + 8 * length ds)"
      by (simp only: big_endian.simps p) arith
    then show ?thesis by (simp only: e1 e2)
  next
    case None
    with Cons.prems obtain k' where k': "scan_bytes ds 0 = Some k'" and k: "k = 8 + k'"
      by (auto simp add: scan_bytes_Cons)
    from None have "d = 0" by (simp add: scan_bits_None_zero)
    from scan_bytes_Some [OF k'] have "k' < 8 * length ds" by simp
    then have e1: "8 * length (d # ds) - 1 - k = 8 * length ds - 1 - k'"
      and e2: "8 * length (d # ds) - k = 8 * length ds - k'"
      using k by simp_all
    from Cons.IH [OF k'] \<open>d = 0\<close>
    have "2 ^ (8 * length ds - 1 - k') \<le> big_endian (d # ds) \<and>
        big_endian (d # ds) < 2 ^ (8 * length ds - k')"
      by simp
    then show ?thesis by (simp only: e1 e2)
  qed
qed

lemma NodeID_bit_replicate_zero: "\<not> NodeID_bit (replicate n 0) k"
  by (simp add: NodeID_bit_def)

lemma scan_bytes_unique:
  assumes "NodeID_bit ds k" and "\<And>j. j < k \<Longrightarrow> \<not> NodeID_bit ds j"
  shows "scan_bytes ds 0 = Some k"
proof (cases "scan_bytes ds 0")
  case None
  then have "ds = replicate (length ds) 0" by (simp add: scan_bytes_None)
  with assms(1) NodeID_bit_replicate_zero [of "length ds" k] show ?thesis by simp
next
  case (Some k')
  from scan_bytes_Some [OF Some] have b: "NodeID_bit ds k'" and nb: "\<And>j. j < k' \<Longrightarrow> \<not> NodeID_bit ds j"
    by auto
  have "\<not> k' < k" using assms(2) b by auto
  moreover have "\<not> k < k'" using nb assms(1) by auto
  ultimately show ?thesis using Some by simp
qed

lemma nth_Distance:
  "n < length a \<Longrightarrow> n < length b \<Longrightarrow> Distance a b ! n = (a ! n) XOR (b ! n)"
  by (simp add: Distance_def)

lemma NodeID_bit_Distance:
  "length a = length b \<Longrightarrow>
   NodeID_bit (Distance a b) k \<longleftrightarrow> k < 8 * length a \<and> (NodeID_bit a k \<noteq> NodeID_bit b k)"
proof (cases "k < 8 * length a")
  case True
  assume len: "length a = length b"
  from True have "k div 8 < length a" by simp
  with len True show ?thesis
    by (simp add: NodeID_bit_def length_Distance nth_Distance bit_xor_iff)
next
  case False
  assume "length a = length b"
  with False show ?thesis by (simp add: NodeID_bit_def length_Distance)
qed

lemma Distance_zero_iff:
  "length a = length b \<Longrightarrow> Distance a b = replicate (length a) 0 \<longleftrightarrow> a = b"
proof (induction a b rule: list_induct2)
  case Nil
  then show ?case by (simp add: Distance_def)
next
  case (Cons x xs y ys)
  have "x XOR y = 0 \<longleftrightarrow> x = y"
    by (metis xor_self_eq xor.left_neutral xor.assoc)
  with Cons show ?case by (simp add: Distance_def)
qed

lemma getBucketIndex_self:
  "getBucketIndex rt (localID rt) = 159"
  by (simp add: getBucketIndex_def Distance_self scan_bytes_None [THEN iffD2])

lemma getBucketIndex_other:
  assumes "length (localID rt) = length c" and "c \<noteq> localID rt"
  shows "scan_bytes (Distance (localID rt) c) 0 = Some (getBucketIndex rt c)"
proof (cases "scan_bytes (Distance (localID rt) c) 0")
  case None
  then have "Distance (localID rt) c = replicate (length (localID rt)) 0"
    using assms(1) by (simp add: scan_bytes_None length_Distance)
  then have "localID rt = c"
    using Distance_zero_iff [OF assms(1)] by blast
  with assms(2) show ?thesis by simp
next
  case (Some k)
  then show ?thesis by (simp add: getBucketIndex_def)
qed

lemma getBucketIndex_less:
  assumes "valid_NodeID (localID rt)" and "valid_NodeID c"
  shows "getBucketIndex rt c < 160"
proof (cases "scan_bytes (Distance (localID rt) c) 0")
  case None
  then show ?thesis by (simp add: getBucketIndex_def)
next
  case (Some k)
  from scan_bytes_Some [OF Some] assms have "k < 160"
    by (simp add: valid_NodeID_def length_Distance)
  with Some show ?thesis by (simp add: getBucketIndex_def)
qed

lemma example_80: "getBucketIndex \<lparr>localID = zero_NodeID, buckets = bs\<rparr> id_80 = 0"
  by code_simp

lemma example_01: "getBucketIndex \<lparr>localID = zero_NodeID, buckets = bs\<rparr> id_01 = 159"
  by code_simp


text \<open>
  Claim C2. For a candidate different from the local ID, \<open>getBucketIndex\<close> is the
  position, counted from 0 at the most significant bit, of the highest set bit of the
  distance to the local ID: that bit is set, no bit before it is, and the distance read
  as an unsigned big-endian integer lies between the two powers of two of that
  position. For the local ID itself the index is 159. With the all-zero local ID, the
  contact \<open>0x80 00..00\<close> has index 0 and the contact \<open>00..00 01\<close> has index 159.
\<close>

theorem getBucketIndex_highest_set_bit:
  assumes "valid_NodeID (localID rt)" and "valid_NodeID c"
  shows "(c \<noteq> localID rt \<longrightarrow>
            getBucketIndex rt c < 160 \<and>
            NodeID_bit (Distance (localID rt) c) (getBucketIndex rt c) \<and>
            (\<forall>j < getBucketIndex rt c. \<not> NodeID_bit (Distance (localID rt) c) j) \<and>
            2 ^ (159 - getBucketIndex rt c) \<le> big_endian (Distance (localID rt) c) \<and>
            big_endian (Distance (localID rt) c) < 2 ^ (160 - getBucketIndex rt c))
       \<and> (c = localID rt \<longrightarrow> getBucketIndex rt c = 159)
       \<and> (localID rt = zero_NodeID \<longrightarrow>
            getBucketIndex rt id_80 = 0 \<and> getBucketIndex rt id_01 = 159)"
proof (intro conjI impI)
  assume ne: "c \<noteq> localID rt"
  from assms have len: "length (localID rt) = length c"
    and l20: "length (Distance (localID rt) c) = 20"
    by (simp_all add: valid_NodeID_def length_Distance)
  note s = getBucketIndex_other [OF len ne]
  show "getBucketIndex rt c < 160" using assms by (rule getBucketIndex_less)
  show "NodeID_bit (Distance (localID rt) c) (getBucketIndex rt c)"
    using scan_bytes_Some [OF s] by simp
  show "\<forall>j < getBucketIndex rt c. \<not> NodeID_bit (Distance (localID rt) c) j"
    using scan_bytes_Some [OF s] by simp
  show "2 ^ (159 - getBucketIndex rt c) \<le> big_endian (Distance (localID rt) c)"
    using scan_bytes_value [OF s] by (simp add: l20)
  show "big_endian (Distance (localID rt) c) < 2 ^ (160 - getBucketIndex rt c)"
    using scan_bytes_value [OF s] by (simp add: l20)
next
  assume "c = localID rt"
  then show "getBucketIndex rt c = 159" by (simp add: getBucketIndex_self)
next
  assume z: "localID rt = zero_NodeID"
  have "getBucketIndex rt id_80 = getBucketIndex \<lparr>localID = zero_NodeID, buckets = []\<rparr> id_80"
    using z by (simp add: getBucketIndex_def)
  then show "getBucketIndex rt id_80 = 0" by (simp add: example_80)
  have "getBucketIndex rt id_01 = getBucketIndex \<lparr>localID = zero_NodeID, buckets = []\<rparr> id_01"
    using z by (simp add: getBucketIndex_def)
  then show "getBucketIndex rt id_01 = 159" by (simp add: example_01)
qed

theorem getBucketIndex_highest_set_bit_witness:
  "valid_NodeID (localID (NewRoutingTable zero_NodeID 0)) \<and> valid_NodeID id_80 \<and>
   id_80 \<noteq> localID (NewRoutingTable zero_NodeID 0) \<and>
   localID (NewRoutingTable zero_NodeID 0) = zero_NodeID \<and>
   getBucketIndex (NewRoutingTable zero_NodeID 0) id_80 = 0 \<and>
   NodeID_bit (Distance zero_NodeID id_80) 0 \<and>
   2 ^ 159 \<le> big_endian (Distance zero_NodeID id_80) \<and>
   big_endian (Distance zero_NodeID id_80) < 2 ^ 160 \<and>
   getBucketIndex (NewRoutingTable zero_NodeID 0) id_01 = 159 \<and>
   getBucketIndex (NewRoutingTable zero_NodeID 0) zero_NodeID = 159"
proof -
  let ?rt = "NewRoutingTable zero_NodeID 0"
  have l: "localID ?rt = zero_NodeID" by (simp add: NewRoutingTable_def)
  have v: "valid_NodeID (localID ?rt)"
    unfolding l by (simp add: valid_NodeID_def zero_NodeID_def)
  have v80: "valid_NodeID id_80" by (simp add: valid_NodeID_def id_80_def)
  have "id_80 \<noteq> zero_NodeID" by code_simp
  then have ne: "id_80 \<noteq> localID ?rt" by (simp add: l)
  note t = getBucketIndex_highest_set_bit [OF v v80]
  from t ne l have a: "getBucketIndex ?rt id_80 = 0" "getBucketIndex ?rt id_01 = 159"
    by blast+
  from t ne
  have b: "NodeID_bit (Distance (localID ?rt) id_80) (getBucketIndex ?rt id_80)"
      "2 ^ (159 - getBucketIndex ?rt id_80) \<le> big_endian (Distance (localID ?rt) id_80)"
      "big_endian (Distance (localID ?rt) id_80) < 2 ^ (160 - getBucketIndex ?rt id_80)"
    by blast+
  note b = b [unfolded l a]
  from getBucketIndex_highest_set_bit [OF v v, unfolded l] l
  have c: "getBucketIndex ?rt zero_NodeID = 159" by simp
  from a b c v v80 ne l show ?thesis by simp
qed

section \<open>Refresh identifiers\<close>

lemma byte_bit_flip:
  "j < 8 \<Longrightarrow> m < 8 \<Longrightarrow>
   bit ((d::byte) XOR 2 ^ (7 - j)) (7 - m) \<longleftrightarrow> (bit d (7 - m) \<noteq> (m = j))"
  by (auto simp add: bit_xor_iff bit_exp_iff possible_bit_def)

lemma NodeID_bit_flip:
  assumes "i < 8 * length n" and "k < 8 * length n"
  shows "NodeID_bit (n[i div 8 := (n ! (i div 8)) XOR push_bit (7 - i mod 8) 1]) k
         \<longleftrightarrow> (NodeID_bit n k \<noteq> (k = i))"
proof (cases "k div 8 = i div 8")
  case True
  from assms have "i div 8 < length n" by simp
  moreover have "k = i \<longleftrightarrow> k mod 8 = i mod 8"
    using True by (metis div_mult_mod_eq)
  ultimately show ?thesis
    using assms True by (simp add: NodeID_bit_def byte_bit_flip)
next
  case False
  then have "k \<noteq> i" by auto
  with False assms show ?thesis by (simp add: NodeID_bit_def)
qed

lemma go_div_mod_nonneg:
  "0 \<le> (i::int) \<Longrightarrow> i sdiv 8 = int (nat i div 8) \<and> i smod 8 = int (nat i mod 8)"
  by (simp add: signed_divide_int_def signed_modulo_int_def sgn_if zdiv_int zmod_int)

text \<open>
  Claim C7. For every local ID and every bucket index \<open>i\<close> from 0 to 159,
  \<open>GetRandomIDFromBucket i\<close> returns an ID (it does not panic) that is the local ID
  with exactly bit \<open>i\<close> flipped, and \<open>getBucketIndex\<close> of that ID is \<open>i\<close>.
\<close>

theorem GetRandomIDFromBucket_round_trip:
  assumes "valid_NodeID (localID rt)" and "0 \<le> i" and "i < 160"
  shows "\<exists>r. GetRandomIDFromBucket rt i = Inr r \<and> valid_NodeID r \<and>
             (\<forall>k<160. NodeID_bit r k \<longleftrightarrow> (NodeID_bit (localID rt) k \<noteq> (k = nat i))) \<and>
             getBucketIndex rt r = nat i"
proof -
  let ?n = "localID rt"
  let ?i = "nat i"
  let ?r = "?n[?i div 8 := (?n ! (?i div 8)) XOR push_bit (7 - ?i mod 8) 1]"
  from assms have len: "length ?n = 20" and i: "?i < 8 * length ?n"
    by (simp_all add: valid_NodeID_def)
  from assms(2) have dm: "i sdiv 8 = int (?i div 8)" "i smod 8 = int (?i mod 8)"
    using go_div_mod_nonneg by simp_all
  have "nat (7 - int (?i mod 8)) = 7 - ?i mod 8" by simp
  moreover have "?i div 8 < 20" using i len by simp
  ultimately have r: "GetRandomIDFromBucket rt i = Inr ?r"
    by (simp add: GetRandomIDFromBucket_def dm len Let_def)
  have v: "valid_NodeID ?r" by (simp add: valid_NodeID_def len)
  have flip: "NodeID_bit ?r k \<longleftrightarrow> (NodeID_bit ?n k \<noteq> (k = ?i))" if "k < 160" for k
    using NodeID_bit_flip [OF i, of k] that len by simp
  have lr: "length ?n = length ?r" by simp
  have d: "NodeID_bit (Distance ?n ?r) k \<longleftrightarrow> k = ?i" if "k < 160" for k
    using NodeID_bit_Distance [OF lr, of k] flip [OF that] that len by auto
  have "scan_bytes (Distance ?n ?r) 0 = Some ?i"
  proof (rule scan_bytes_unique)
    show "NodeID_bit (Distance ?n ?r) ?i" using d [of ?i] i len by simp
    show "\<not> NodeID_bit (Distance ?n ?r) j" if "j < ?i" for j
      using d [of j] that i len by simp
  qed
  then have "getBucketIndex rt ?r = ?i" by (simp add: getBucketIndex_def)
  with r v flip show ?thesis by blast
qed

theorem GetRandomIDFromBucket_round_trip_witness:
  "valid_NodeID (localID (NewRoutingTable id_80 0)) \<and> (0::int) \<le> 13 \<and> (13::int) < 160 \<and>
   (\<exists>r. GetRandomIDFromBucket (NewRoutingTable id_80 0) 13 = Inr r \<and> valid_NodeID r \<and>
        (\<forall>k<160. NodeID_bit r k \<longleftrightarrow> (NodeID_bit id_80 k \<noteq> (k = 13))) \<and>
        getBucketIndex (NewRoutingTable id_80 0) r = 13)"
proof -
  let ?rt = "NewRoutingTable id_80 0"
  have l: "localID ?rt = id_80" by (simp add: NewRoutingTable_def)
  have v: "valid_NodeID (localID ?rt)"
    unfolding l by (simp add: valid_NodeID_def id_80_def)
  from GetRandomIDFromBucket_round_trip [OF v, of 13] v show ?thesis
    by (simp add: l)
qed

section \<open>The XOR metric\<close>

text \<open>
  Claim C8. \<open>Distance\<close> is a function of its two arguments with a 20-byte result
  for all 20-byte arguments; it is symmetric, the distance of an ID to itself is the
  all-zero ID, and the triangle inequality holds for distances read as unsigned
  big-endian integers.
\<close>

theorem Distance_metric:
  assumes "valid_NodeID a" and "valid_NodeID b" and "valid_NodeID c"
  shows "valid_NodeID (Distance a b) \<and>
         Distance a b = Distance b a \<and>
         Distance a a = zero_NodeID \<and>
         big_endian (Distance a c) \<le> big_endian (Distance a b) + big_endian (Distance b c)"
proof -
  from assms have len: "length a = length b" "length b = length c" and a: "length a = 20"
    by (simp_all add: valid_NodeID_def)
  have "valid_NodeID (Distance a b)"
    using len a by (simp add: valid_NodeID_def length_Distance)
  moreover have "Distance a b = Distance b a" by (rule Distance_commute)
  moreover have "Distance a a = zero_NodeID"
    by (simp add: Distance_self a zero_NodeID_def)
  moreover have "big_endian (Distance a c) \<le> big_endian (Distance a b) + big_endian (Distance b c)"
    using len by (rule Distance_triangle)
  ultimately show ?thesis by blast
qed

theorem Distance_metric_witness:
  "valid_NodeID id_80 \<and> valid_NodeID id_01 \<and> valid_NodeID zero_NodeID \<and>
   valid_NodeID (Distance id_80 id_01) \<and>
   Distance id_80 id_01 = Distance id_01 id_80 \<and>
   Distance id_80 id_80 = zero_NodeID \<and>
   big_endian (Distance id_80 zero_NodeID)
     \<le> big_endian (Distance id_80 id_01) + big_endian (Distance id_01 zero_NodeID)"
proof -
  have v: "valid_NodeID id_80" "valid_NodeID id_01" "valid_NodeID zero_NodeID"
    by (simp_all add: valid_NodeID_def id_80_def id_01_def zero_NodeID_def)
  from Distance_metric [OF v] v show ?thesis by blast
qed

section \<open>Adding contacts to a bucket\<close>

lemma find_existing_None:
  "find_existing c xs = None \<longleftrightarrow> ID c \<notin> ID ` set xs"
  by (induction xs) (auto simp add: Equal_def)

lemma find_existing_Some:
  "find_existing c xs = Some i \<Longrightarrow>
   i < length xs \<and> ID (xs ! i) = ID c \<and> ID c \<notin> ID ` set (take i xs)"
proof (induction xs arbitrary: i)
  case Nil
  then show ?case by simp
next
  case (Cons e es)
  show ?case
  proof (cases "Equal e c")
    case True
    with Cons.prems show ?thesis by (simp add: Equal_def)
  next
    case False
    with Cons.prems obtain j where j: "find_existing c es = Some j" and i: "i = Suc j"
      by auto
    from Cons.IH [OF j] False i show ?thesis by (auto simp add: Equal_def)
  qed
qed

lemma MoveToBack_overwrite:
  "i < length l \<Longrightarrow> (MoveToBack i l)[length l - 1 := c] = take i l @ drop (Suc i) l @ [c]"
proof -
  assume i: "i < length l"
  then have "length (take i l @ drop (Suc i) l) = length l - 1" by simp
  then have "(MoveToBack i l)[length l - 1 := c]
      = ((take i l @ drop (Suc i) l) @ [l ! i])[length (take i l @ drop (Suc i) l) := c]"
    by (simp add: MoveToBack_def)
  also have "\<dots> = (take i l @ drop (Suc i) l) @ [c]"
    by (simp only: list_update_length)
  finally show ?thesis by simp
qed

lemma KBucket_AddContact_existing:
  assumes "find_existing c (contacts kb) = Some i"
  shows "KBucket_AddContact kb c now =
           (True, kb\<lparr>contacts := take i (contacts kb) @ drop (Suc i) (contacts kb) @ [c],
                     lastSeen := now\<rparr>)"
proof -
  from find_existing_Some [OF assms] have "i < length (contacts kb)" by simp
  then show ?thesis
    unfolding KBucket_AddContact_def assms
    by (simp only: option.case MoveToBack_overwrite)
qed

lemma KBucket_AddContact_new:
  assumes "find_existing c (contacts kb) = None" and "length (contacts kb) < K"
  shows "KBucket_AddContact kb c now =
           (True, kb\<lparr>contacts := contacts kb @ [c], lastSeen := now,
                     range_min := (if lessThan (ID c) (range_min kb) then ID c else range_min kb),
                     range_max := (if lessThan (range_max kb) (ID c) then ID c else range_max kb)\<rparr>)"
  using assms by (simp add: KBucket_AddContact_def)

lemma KBucket_AddContact_full:
  assumes "find_existing c (contacts kb) = None" and "\<not> length (contacts kb) < K"
  shows "KBucket_AddContact kb c now = (False, kb)"
  using assms by (simp add: KBucket_AddContact_def)

lemma KBucket_AddContact_size:
  "KBucket_Size kb \<le> K \<Longrightarrow> KBucket_Size (snd (KBucket_AddContact kb c now)) \<le> K"
proof (cases "find_existing c (contacts kb)")
  case None
  assume "KBucket_Size kb \<le> K"
  with None show ?thesis
    by (cases "length (contacts kb) < K")
      (simp_all add: KBucket_AddContact_new KBucket_AddContact_full KBucket_Size_def)
next
  case (Some i)
  assume "KBucket_Size kb \<le> K"
  with find_existing_Some [OF Some] show ?thesis
    by (auto simp add: KBucket_AddContact_existing [OF Some] KBucket_Size_def)
qed

lemma KBucket_AddContacts_size:
  "KBucket_Size kb \<le> K \<Longrightarrow> KBucket_Size (KBucket_AddContacts kb ops) \<le> K"
proof (induction ops arbitrary: kb)
  case Nil
  then show ?case by simp
next
  case (Cons op ops)
  obtain c now where op: "op = (c, now)" by (cases op)
  from Cons.prems have "KBucket_Size (snd (KBucket_AddContact kb c now)) \<le> K"
    by (rule KBucket_AddContact_size)
  then show ?case unfolding op by (simp add: Cons.IH)
qed

lemma find_existing_back:
  "ID c \<notin> ID ` set zs \<Longrightarrow> ID e = ID c \<Longrightarrow> find_existing c (zs @ [e]) = Some (length zs)"
  by (induction zs) (auto simp add: Equal_def)

lemma find_existing_split:
  assumes "find_existing c l = Some i"
  shows "l = take i l @ (l ! i) # drop (Suc i) l \<and> ID (l ! i) = ID c \<and>
         ID c \<notin> ID ` set (take i l)"
  using find_existing_Some [OF assms] by (simp add: id_take_nth_drop [symmetric])

lemma distinct_others:
  assumes "distinct (map ID l)" and "i < length l"
  shows "ID (l ! i) \<notin> ID ` set (take i l @ drop (Suc i) l)"
proof -
  have "l = take i l @ (l ! i) # drop (Suc i) l"
    using assms(2) by (rule id_take_nth_drop)
  then have "distinct (map ID (take i l @ (l ! i) # drop (Suc i) l))"
    using assms(1) by simp
  then show ?thesis by auto
qed

lemma KBucket_AddContact_present:
  assumes "ID c \<in> ID ` set (contacts kb)"
  obtains i where "find_existing c (contacts kb) = Some i"
  using assms find_existing_None [of c "contacts kb"] by (cases "find_existing c (contacts kb)") auto

text \<open>
  Claim C4. For every bucket: a contact whose NodeID is not present is accepted and
  appended at the back while the size is below \<open>K = 20\<close>; with \<open>K\<close> contacts in the
  bucket a new NodeID is rejected and the bucket is unchanged; a NodeID that is present
  is accepted at any size; and no sequence of \<open>AddContact\<close> calls, from a fresh bucket
  or from any bucket of size at most \<open>K\<close>, makes the size exceed \<open>K\<close>.
\<close>

theorem KBucket_AddContact_capacity:
  "(ID c \<notin> ID ` set (contacts kb) \<and> KBucket_Size kb < K \<longrightarrow>
      fst (KBucket_AddContact kb c now) \<and>
      contacts (snd (KBucket_AddContact kb c now)) = contacts kb @ [c]) \<and>
   (ID c \<notin> ID ` set (contacts kb) \<and> KBucket_Size kb = K \<longrightarrow>
      KBucket_AddContact kb c now = (False, kb)) \<and>
   (ID c \<in> ID ` set (contacts kb) \<longrightarrow> fst (KBucket_AddContact kb c now)) \<and>
   K = 20 \<and>
   KBucket_Size (KBucket_AddContacts (NewKBucket t0) ops) \<le> K \<and>
   (KBucket_Size kb \<le> K \<longrightarrow> KBucket_Size (KBucket_AddContacts kb ops) \<le> K)"
proof (intro conjI impI)
  assume a: "ID c \<notin> ID ` set (contacts kb) \<and> KBucket_Size kb < K"
  then have n: "find_existing c (contacts kb) = None" and l: "length (contacts kb) < K"
    by (simp_all add: find_existing_None KBucket_Size_def)
  show "fst (KBucket_AddContact kb c now)"
    by (simp add: KBucket_AddContact_new [OF n l])
  show "contacts (snd (KBucket_AddContact kb c now)) = contacts kb @ [c]"
    by (simp add: KBucket_AddContact_new [OF n l])
next
  assume a: "ID c \<notin> ID ` set (contacts kb) \<and> KBucket_Size kb = K"
  then have n: "find_existing c (contacts kb) = None" and l: "\<not> length (contacts kb) < K"
    by (simp_all add: find_existing_None KBucket_Size_def)
  then show "KBucket_AddContact kb c now = (False, kb)"
    by (rule KBucket_AddContact_full)
next
  assume "ID c \<in> ID ` set (contacts kb)"
  then obtain i where "find_existing c (contacts kb) = Some i"
    by (rule KBucket_AddContact_present)
  then show "fst (KBucket_AddContact kb c now)"
    by (simp add: KBucket_AddContact_existing)
next
  show "K = 20" by (simp add: K_def)
next
  have "KBucket_Size (NewKBucket t0) \<le> K"
    by (simp add: KBucket_Size_def NewKBucket_def)
  then show "KBucket_Size (KBucket_AddContacts (NewKBucket t0) ops) \<le> K"
    by (rule KBucket_AddContacts_size)
next
  assume "KBucket_Size kb \<le> K"
  then show "KBucket_Size (KBucket_AddContacts kb ops) \<le> K"
    by (rule KBucket_AddContacts_size)
qed

theorem KBucket_AddContact_capacity_witness:
  "ID (example_contact 1) \<notin> ID ` set (contacts (NewKBucket 0)) \<and>
   KBucket_Size (NewKBucket 0) < K \<and>
   fst (KBucket_AddContact (NewKBucket 0) (example_contact 1) 1) \<and>
   contacts (snd (KBucket_AddContact (NewKBucket 0) (example_contact 1) 1)) = [example_contact 1] \<and>
   ID (example_contact 21) \<notin> ID ` set (contacts example_full_bucket) \<and>
   KBucket_Size example_full_bucket = K \<and>
   KBucket_AddContact example_full_bucket (example_contact 21) 21 = (False, example_full_bucket) \<and>
   ID (example_contact 3) \<in> ID ` set (contacts example_full_bucket) \<and>
   fst (KBucket_AddContact example_full_bucket (example_contact 3) 22) \<and>
   KBucket_Size example_full_bucket \<le> K \<and>
   KBucket_Size (KBucket_AddContacts example_full_bucket [(example_contact 21, 21)]) \<le> K"
proof -
  have h1: "ID (example_contact 1) \<notin> ID ` set (contacts (NewKBucket 0)) \<and>
      KBucket_Size (NewKBucket 0) < K"
    by (simp add: NewKBucket_def KBucket_Size_def K_def)
  have h2: "ID (example_contact 21) \<notin> ID ` set (contacts example_full_bucket) \<and>
      KBucket_Size example_full_bucket = K"
    by code_simp
  have h3: "ID (example_contact 3) \<in> ID ` set (contacts example_full_bucket)"
    by code_simp
  have h4: "KBucket_Size example_full_bucket \<le> K"
    using h2 by simp
  have e: "contacts (NewKBucket 0) @ [example_contact 1] = [example_contact 1]"
    by (simp add: NewKBucket_def)
  note t1 = KBucket_AddContact_capacity [of "example_contact 1" "NewKBucket 0" 1 0 "[]"]
  note t2 = KBucket_AddContact_capacity
    [of "example_contact 21" example_full_bucket 21 0 "[(example_contact 21, 21)]"]
  note t3 = KBucket_AddContact_capacity [of "example_contact 3" example_full_bucket 22 0 "[]"]
  note c1 = t1 [THEN conjunct1, THEN mp, OF h1, unfolded e]
  note c2 = t2 [THEN conjunct2, THEN conjunct1, THEN mp, OF h2]
  note c3 = t3 [THEN conjunct2, THEN conjunct2, THEN conjunct1, THEN mp, OF h3]
  note c4 = t2 [THEN conjunct2, THEN conjunct2, THEN conjunct2, THEN conjunct2, THEN conjunct2,
    THEN mp, OF h4]
  show ?thesis
    by (intro conjI) (rule h1 [THEN conjunct1] h1 [THEN conjunct2] h2 [THEN conjunct1]
      h2 [THEN conjunct2] h3 h4 c1 [THEN conjunct1] c1 [THEN conjunct2] c2 c3 c4)+
qed

text \<open>
  Claim C6. For every bucket and every contact \<open>c\<close> whose NodeID is present in it,
  \<open>AddContact c\<close> is accepted, leaves the size unchanged and puts \<open>c\<close>, with its
  timestamp, at the most-recently-seen end. When the bucket's NodeIDs are distinct, no
  other entry has that NodeID afterwards, the order of the NodeIDs is unchanged if the
  entry was at the back already, and one more \<open>AddContact c\<close> is accepted and changes
  no contact.
\<close>

theorem KBucket_AddContact_refresh:
  assumes "ID c \<in> ID ` set (contacts kb)"
  shows "fst (KBucket_AddContact kb c now) \<and>
         KBucket_Size (snd (KBucket_AddContact kb c now)) = KBucket_Size kb \<and>
         last (contacts (snd (KBucket_AddContact kb c now))) = c \<and>
         LastSeen (last (contacts (snd (KBucket_AddContact kb c now)))) = LastSeen c \<and>
         (distinct (map ID (contacts kb)) \<longrightarrow>
            distinct (map ID (contacts (snd (KBucket_AddContact kb c now)))) \<and>
            (ID (last (contacts kb)) = ID c \<longrightarrow>
               map ID (contacts (snd (KBucket_AddContact kb c now))) = map ID (contacts kb)) \<and>
            fst (KBucket_AddContact (snd (KBucket_AddContact kb c now)) c now') \<and>
            contacts (snd (KBucket_AddContact (snd (KBucket_AddContact kb c now)) c now'))
              = contacts (snd (KBucket_AddContact kb c now)))"
proof -
  let ?l = "contacts kb"
  from assms obtain i where f: "find_existing c ?l = Some i"
    by (rule KBucket_AddContact_present)
  let ?rest = "take i ?l @ drop (Suc i) ?l"
  let ?kb' = "snd (KBucket_AddContact kb c now)"
  from find_existing_Some [OF f] have i: "i < length ?l" and idc: "ID (?l ! i) = ID c"
    by simp_all
  have r: "KBucket_AddContact kb c now = (True, kb\<lparr>contacts := ?rest @ [c], lastSeen := now\<rparr>)"
    using KBucket_AddContact_existing [OF f] by simp
  then have c': "contacts ?kb' = ?rest @ [c]" by simp
  have len: "length (?rest @ [c]) = length ?l" using i by simp
  have part1: "fst (KBucket_AddContact kb c now)"
      "KBucket_Size ?kb' = KBucket_Size kb" "last (contacts ?kb') = c"
    using r len by (simp_all add: KBucket_Size_def)
  have part2: "distinct (map ID (contacts ?kb')) \<and>
      (ID (last ?l) = ID c \<longrightarrow> map ID (contacts ?kb') = map ID ?l) \<and>
      fst (KBucket_AddContact ?kb' c now') \<and>
      contacts (snd (KBucket_AddContact ?kb' c now')) = contacts ?kb'"
    if d: "distinct (map ID ?l)"
  proof -
    have sp: "?l = take i ?l @ (?l ! i) # drop (Suc i) ?l"
      using i by (rule id_take_nth_drop)
    from distinct_others [OF d i] idc have notin: "ID c \<notin> ID ` set ?rest" by simp
    have "distinct (map ID (take i ?l @ (?l ! i) # drop (Suc i) ?l))"
      using d sp by simp
    then have drest: "distinct (map ID ?rest)" by simp
    with notin have d': "distinct (map ID (contacts ?kb'))" by (auto simp add: c')
    have same: "map ID (contacts ?kb') = map ID ?l" if "ID (last ?l) = ID c"
    proof -
      have "?l \<noteq> []" using i by auto
      then have "last ?l = ?l ! (length ?l - 1)" by (rule last_conv_nth)
      with that idc have "map ID ?l ! (length ?l - 1) = map ID ?l ! i"
        using i by simp
      moreover have "length ?l - 1 < length (map ID ?l)" "i < length (map ID ?l)"
        using i by simp_all
      ultimately have "i = length ?l - 1"
        using nth_eq_iff_index_eq [OF d] by metis
      then have "Suc i = length ?l" using i by simp
      then have "drop (Suc i) ?l = []" by simp
      with sp have "?l = take i ?l @ [?l ! i]" by simp
      then have "map ID ?l = map ID (take i ?l @ [?l ! i])"
        by (rule arg_cong)
      then have "map ID ?l = map ID (take i ?l) @ [ID c]"
        by (simp only: map_append list.map idc)
      with \<open>drop (Suc i) ?l = []\<close> show ?thesis by (simp add: c')
    qed
    have f': "find_existing c (contacts ?kb') = Some (length ?rest)"
      unfolding c' using notin by (simp add: find_existing_back del: append_assoc)
    have "KBucket_AddContact ?kb' c now'
        = (True, ?kb'\<lparr>contacts := take (length ?rest) (contacts ?kb')
              @ drop (Suc (length ?rest)) (contacts ?kb') @ [c], lastSeen := now'\<rparr>)"
      by (rule KBucket_AddContact_existing [OF f'])
    have g: "take (length zs) (zs @ [c]) @ drop (Suc (length zs)) (zs @ [c]) @ [c]
        = zs @ [c]" for zs
      by simp
    have "take (length ?rest) (contacts ?kb')
        @ drop (Suc (length ?rest)) (contacts ?kb') @ [c] = contacts ?kb'"
      unfolding c' by (rule g)
    with \<open>KBucket_AddContact ?kb' c now' = _\<close> have "fst (KBucket_AddContact ?kb' c now')"
        "contacts (snd (KBucket_AddContact ?kb' c now')) = contacts ?kb'"
      by simp_all
    with d' same show ?thesis by blast
  qed
  from part1 part2 show ?thesis by simp
qed

theorem KBucket_AddContact_refresh_witness:
  "ID example_update \<in> ID ` set (contacts example_full_bucket) \<and>
   distinct (map ID (contacts example_full_bucket)) \<and>
   fst (KBucket_AddContact example_full_bucket example_update 501) \<and>
   KBucket_Size (snd (KBucket_AddContact example_full_bucket example_update 501)) = 20 \<and>
   last (contacts (snd (KBucket_AddContact example_full_bucket example_update 501)))
     = example_update \<and>
   LastSeen (last (contacts (snd (KBucket_AddContact example_full_bucket example_update 501))))
     = 500 \<and>
   contacts (snd (KBucket_AddContact
       (snd (KBucket_AddContact example_full_bucket example_update 501)) example_update 502))
     = contacts (snd (KBucket_AddContact example_full_bucket example_update 501)) \<and>
   ID (example_contact 20) \<in> ID ` set (contacts example_full_bucket) \<and>
   ID (last (contacts example_full_bucket)) = ID (example_contact 20) \<and>
   map ID (contacts (snd (KBucket_AddContact example_full_bucket (example_contact 20) 501)))
     = map ID (contacts example_full_bucket)"
proof -
  have h1: "ID example_update \<in> ID ` set (contacts example_full_bucket)"
    by code_simp
  have h2: "distinct (map ID (contacts example_full_bucket))"
    by code_simp
  have h3: "ID (example_contact 20) \<in> ID ` set (contacts example_full_bucket)"
    by code_simp
  have h4: "ID (last (contacts example_full_bucket)) = ID (example_contact 20)"
    by code_simp
  have s: "KBucket_Size example_full_bucket = 20" "LastSeen example_update = 500"
    by code_simp+
  note t1 = KBucket_AddContact_refresh [OF h1, of 501 502]
  note t2 = KBucket_AddContact_refresh [OF h3, of 501 502]
  from t1 h2 s
  have c1: "fst (KBucket_AddContact example_full_bucket example_update 501)"
      "KBucket_Size (snd (KBucket_AddContact example_full_bucket example_update 501)) = 20"
      "last (contacts (snd (KBucket_AddContact example_full_bucket example_update 501)))
         = example_update"
      "LastSeen (last (contacts (snd (KBucket_AddContact example_full_bucket example_update 501))))
         = 500"
      "contacts (snd (KBucket_AddContact
          (snd (KBucket_AddContact example_full_bucket example_update 501)) example_update 502))
        = contacts (snd (KBucket_AddContact example_full_bucket example_update 501))"
    by simp_all
  note c2 = t2 [THEN conjunct2, THEN conjunct2, THEN conjunct2, THEN conjunct2, THEN mp, OF h2,
    THEN conjunct2, THEN conjunct1, THEN mp, OF h4]
  show ?thesis
    by (intro conjI) (rule h1 h2 h3 h4 c1 c2)+
qed

text \<open>
  Claim C10. When \<open>AddContact c\<close> finds an entry \<open>e\<close> with the NodeID of \<open>c\<close>, the
  stored element is replaced by \<open>c\<close> as a whole: the entries before and after \<open>e\<close>
  keep their values and their order, \<open>e\<close> is gone, and \<open>c\<close> stands at the back, so
  the stored Address and LastSeen are those of \<open>c\<close>. The size, the recorded range and
  every other entry are unchanged; only the bucket's own timestamp is set to the clock.
  With distinct NodeIDs, \<open>c\<close> is the only entry with its NodeID afterwards, so the
  address stored before does not survive.
\<close>

theorem KBucket_AddContact_replaces_entry:
  assumes "ID c \<in> ID ` set (contacts kb)"
  shows "(\<exists>xs e ys.
            contacts kb = xs @ e # ys \<and> ID e = ID c \<and> ID c \<notin> ID ` set xs \<and>
            KBucket_AddContact kb c now
              = (True, kb\<lparr>contacts := xs @ ys @ [c], lastSeen := now\<rparr>)) \<and>
         Address (last (contacts (snd (KBucket_AddContact kb c now)))) = Address c \<and>
         LastSeen (last (contacts (snd (KBucket_AddContact kb c now)))) = LastSeen c \<and>
         KBucket_Size (snd (KBucket_AddContact kb c now)) = KBucket_Size kb \<and>
         (distinct (map ID (contacts kb)) \<longrightarrow>
            (\<forall>x \<in> set (contacts (snd (KBucket_AddContact kb c now))). ID x = ID c \<longrightarrow> x = c))"
proof -
  let ?l = "contacts kb"
  from assms obtain i where f: "find_existing c ?l = Some i"
    by (rule KBucket_AddContact_present)
  let ?xs = "take i ?l" and ?e = "?l ! i" and ?ys = "drop (Suc i) ?l"
  from find_existing_Some [OF f] have i: "i < length ?l" by simp
  from find_existing_split [OF f]
  have sp: "?l = ?xs @ ?e # ?ys" and ide: "ID ?e = ID c" and nxs: "ID c \<notin> ID ` set ?xs"
    by simp_all
  have r: "KBucket_AddContact kb c now = (True, kb\<lparr>contacts := ?xs @ ?ys @ [c], lastSeen := now\<rparr>)"
    by (rule KBucket_AddContact_existing [OF f])
  from sp ide nxs r
  have ex: "\<exists>xs e ys. ?l = xs @ e # ys \<and> ID e = ID c \<and> ID c \<notin> ID ` set xs \<and>
      KBucket_AddContact kb c now = (True, kb\<lparr>contacts := xs @ ys @ [c], lastSeen := now\<rparr>)"
    by blast
  have la: "last (contacts (snd (KBucket_AddContact kb c now))) = c"
    by (simp add: r)
  have sz: "KBucket_Size (snd (KBucket_AddContact kb c now)) = KBucket_Size kb"
    using i by (simp add: r KBucket_Size_def)
  have only: "\<forall>x \<in> set (contacts (snd (KBucket_AddContact kb c now))). ID x = ID c \<longrightarrow> x = c"
    if d: "distinct (map ID ?l)"
  proof -
    from distinct_others [OF d i] ide have "\<forall>x \<in> set (?xs @ ?ys). ID x \<noteq> ID c"
      by (metis imageI)
    then show ?thesis by (auto simp add: r)
  qed
  from ex la sz only show ?thesis by simp
qed

theorem KBucket_AddContact_replaces_entry_witness:
  "ID example_update \<in> ID ` set (contacts example_full_bucket) \<and>
   distinct (map ID (contacts example_full_bucket)) \<and>
   example_contact 3 \<in> set (contacts example_full_bucket) \<and>
   Address (example_contact 3) \<noteq> Address example_update \<and>
   (\<exists>xs e ys.
      contacts example_full_bucket = xs @ e # ys \<and> ID e = ID example_update \<and>
      ID example_update \<notin> ID ` set xs \<and>
      KBucket_AddContact example_full_bucket example_update 501
        = (True, example_full_bucket\<lparr>contacts := xs @ ys @ [example_update], lastSeen := 501\<rparr>)) \<and>
   Address (last (contacts (snd (KBucket_AddContact example_full_bucket example_update 501))))
     = Address example_update \<and>
   list_all (\<lambda>x. ID x = ID example_update \<longrightarrow> x = example_update)
     (contacts (snd (KBucket_AddContact example_full_bucket example_update 501)))"
proof -
  have h1: "ID example_update \<in> ID ` set (contacts example_full_bucket)"
    by code_simp
  have h2: "distinct (map ID (contacts example_full_bucket))"
    by code_simp
  have h3: "example_contact 3 \<in> set (contacts example_full_bucket)"
    by code_simp
  have h4: "Address (example_contact 3) \<noteq> Address example_update"
    by code_simp
  note t = KBucket_AddContact_replaces_entry [OF h1, of 501]
  note ex = t [THEN conjunct1]
  note addr = t [THEN conjunct2, THEN conjunct1]
  note only = t [THEN conjunct2, THEN conjunct2, THEN conjunct2, THEN conjunct2, THEN mp, OF h2,
    folded list_all_iff]
  show ?thesis
    by (intro conjI) (rule h1 h2 h3 h4 ex addr only)+
qed

section \<open>The routing-table invariant\<close>

lemma KBucket_AddContact_set:
  "set (contacts (snd (KBucket_AddContact kb c now))) \<subseteq> insert c (set (contacts kb))"
proof (cases "find_existing c (contacts kb)")
  case None
  then show ?thesis
    by (cases "length (contacts kb) < K")
      (auto simp add: KBucket_AddContact_new KBucket_AddContact_full)
next
  case (Some i)
  have "set (take i (contacts kb)) \<subseteq> set (contacts kb)"
    and "set (drop (Suc i) (contacts kb)) \<subseteq> set (contacts kb)"
    by (rule set_take_subset, rule set_drop_subset)
  then show ?thesis
    by (auto simp add: KBucket_AddContact_existing [OF Some])
qed

lemma KBucket_AddContact_distinct:
  assumes "distinct (map ID (contacts kb))"
  shows "distinct (map ID (contacts (snd (KBucket_AddContact kb c now))))"
proof (cases "find_existing c (contacts kb)")
  case None
  then have "ID c \<notin> ID ` set (contacts kb)" by (simp add: find_existing_None)
  with assms None show ?thesis
    by (cases "length (contacts kb) < K")
      (auto simp add: KBucket_AddContact_new KBucket_AddContact_full)
next
  case (Some i)
  let ?l = "contacts kb"
  from find_existing_Some [OF Some] have i: "i < length ?l" and idc: "ID (?l ! i) = ID c"
    by simp_all
  from distinct_others [OF assms i] idc
  have notin: "ID c \<notin> ID ` set (take i ?l @ drop (Suc i) ?l)" by simp
  have "?l = take i ?l @ (?l ! i) # drop (Suc i) ?l"
    using i by (rule id_take_nth_drop)
  then have "distinct (map ID (take i ?l @ (?l ! i) # drop (Suc i) ?l))"
    using assms by simp
  then have "distinct (map ID (take i ?l @ drop (Suc i) ?l))" by simp
  with notin show ?thesis
    by (auto simp add: KBucket_AddContact_existing [OF Some])
qed

lemma getBucketIndex_buckets_update [simp]:
  "getBucketIndex (rt\<lparr>buckets := bs\<rparr>) x = getBucketIndex rt x"
  by (simp add: getBucketIndex_def)

lemma table_invariant_New:
  "valid_NodeID lid \<Longrightarrow> table_invariant (NewRoutingTable lid now)"
  by (simp add: table_invariant_def NewRoutingTable_def NewKBucket_def)

lemma RoutingTable_AddContact_invariant:
  assumes inv: "table_invariant rt" and v: "valid_NodeID (ID c)"
  shows "\<exists>rt'. RoutingTable_AddContact rt c now = Inr rt' \<and> table_invariant rt' \<and>
               localID rt' = localID rt"
proof -
  let ?b = "getBucketIndex rt (ID c)"
  let ?kb' = "snd (KBucket_AddContact (buckets rt ! ?b) c now)"
  let ?rt' = "rt\<lparr>buckets := (buckets rt)[?b := ?kb']\<rparr>"
  from inv have vl: "valid_NodeID (localID rt)" and len: "length (buckets rt) = 160"
    by (simp_all add: table_invariant_def)
  from vl v have b: "?b < 160" by (rule getBucketIndex_less)
  have r: "RoutingTable_AddContact rt c now = Inr ?rt'"
    using b len by (simp add: RoutingTable_AddContact_def Let_def)
  have "table_invariant ?rt'"
    unfolding table_invariant_def
  proof (intro conjI ballI)
    show "valid_NodeID (localID ?rt')" using vl by simp
    show "length (buckets ?rt') = 160" using len by simp
  next
    fix i :: nat and x
    assume i: "i \<in> {0..<160}" and x: "x \<in> set (contacts (buckets ?rt' ! i))"
    from inv i have old: "\<And>y. y \<in> set (contacts (buckets rt ! i)) \<Longrightarrow>
        valid_NodeID (ID y) \<and> getBucketIndex rt (ID y) = i"
      by (simp add: table_invariant_def)
    have "valid_NodeID (ID x) \<and> getBucketIndex rt (ID x) = i"
    proof (cases "i = ?b")
      case True
      with x b len have "x \<in> set (contacts ?kb')" by simp
      with KBucket_AddContact_set have "x = c \<or> x \<in> set (contacts (buckets rt ! ?b))"
        by blast
      with old True v show ?thesis by auto
    next
      case False
      with x have "x \<in> set (contacts (buckets rt ! i))" by simp
      with old show ?thesis by simp
    qed
    then show "valid_NodeID (ID x)" and "getBucketIndex ?rt' (ID x) = i" by simp_all
  next
    fix i :: nat
    assume i: "i \<in> {0..<160}"
    from inv i have d: "distinct (map ID (contacts (buckets rt ! i)))"
      and s: "length (contacts (buckets rt ! i)) \<le> K"
      by (simp_all add: table_invariant_def)
    show "distinct (map ID (contacts (buckets ?rt' ! i)))"
    proof (cases "i = ?b")
      case True
      with d b len show ?thesis by (simp add: KBucket_AddContact_distinct)
    next
      case False
      with d show ?thesis by simp
    qed
    show "length (contacts (buckets ?rt' ! i)) \<le> K"
    proof (cases "i = ?b")
      case True
      with s b len KBucket_AddContact_size [of "buckets rt ! ?b" c now] show ?thesis
        by (simp add: KBucket_Size_def)
    next
      case False
      with s show ?thesis by simp
    qed
  qed
  with r show ?thesis by simp
qed

section \<open>The closest contacts\<close>

lemma GetContacts_nonneg:
  "0 \<le> n \<Longrightarrow> GetContacts kb n = Inr (take (nat n) (contacts kb))"
  by (simp add: GetContacts_def Let_def)

lemma GetContacts_negative:
  "n < 0 \<Longrightarrow> GetContacts kb n = Inl MakesliceCapOutOfRange"
  by (simp add: GetContacts_def Let_def)

lemma bucket_GetContacts_nonneg:
  "i < length (buckets rt) \<Longrightarrow> 0 \<le> n \<Longrightarrow>
   bucket_GetContacts rt i n = Inr (take (nat n) (contacts (buckets rt ! i)))"
  by (simp add: bucket_GetContacts_def GetContacts_nonneg)

lemma in_all_contacts:
  "i < length (buckets rt) \<Longrightarrow> c \<in> set (contacts (buckets rt ! i)) \<Longrightarrow>
   c \<in> set (all_contacts rt)"
  by (auto simp add: all_contacts_def intro!: bexI [of _ "buckets rt ! i"])

lemma RoutingTable_Size_all_contacts: "RoutingTable_Size rt = length (all_contacts rt)"
proof -
  have "sum_list (map KBucket_Size bs) = length (concat (map contacts bs))" for bs
    by (induction bs) (simp_all add: KBucket_Size_def)
  then show ?thesis
    by (simp add: RoutingTable_Size_def all_contacts_def)
qed

text \<open>Appending a prefix of the bucket at index \<open>k\<close> to a pool that has nothing from it.\<close>

lemma pool_extend:
  assumes inv: "table_invariant rt" and k: "k < 160"
    and d: "distinct (map ID cs)"
    and old: "\<forall>c \<in> set cs. P c \<and> getBucketIndex rt (ID c) \<noteq> k"
    and new: "\<And>c. c \<in> set (all_contacts rt) \<Longrightarrow> valid_NodeID (ID c) \<Longrightarrow>
                getBucketIndex rt (ID c) = k \<Longrightarrow> P c"
  shows "distinct (map ID (cs @ take n (contacts (buckets rt ! k)))) \<and>
         (\<forall>c \<in> set (cs @ take n (contacts (buckets rt ! k))). P c)"
proof -
  let ?bk = "contacts (buckets rt ! k)"
  from inv k have len: "length (buckets rt) = 160"
    and m: "\<And>c. c \<in> set ?bk \<Longrightarrow> valid_NodeID (ID c) \<and> getBucketIndex rt (ID c) = k"
    and dk: "distinct (map ID ?bk)"
    by (simp_all add: table_invariant_def)
  have sub: "set (take n ?bk) \<subseteq> set ?bk" by (rule set_take_subset)
  have dt: "distinct (map ID (take n ?bk))"
    using dk by (simp add: take_map [symmetric] distinct_take)
  have disj: "ID x \<noteq> ID y" if "x \<in> set cs" "y \<in> set (take n ?bk)" for x y
  proof
    assume "ID x = ID y"
    moreover from that(2) sub m have "getBucketIndex rt (ID y) = k" by blast
    ultimately show False using old that(1) by auto
  qed
  have "P c" if "c \<in> set (take n ?bk)" for c
  proof -
    from that sub have c: "c \<in> set ?bk" by blast
    with len k have "c \<in> set (all_contacts rt)" by (simp add: in_all_contacts)
    with m [OF c] show ?thesis by (simp add: new)
  qed
  with d dt disj old show ?thesis by auto
qed


lemma neighbours_loop_pool:
  assumes inv: "table_invariant rt" and b: "b < 160" and i: "0 < i"
    and p: "pool_invariant rt b i cs"
  shows "\<exists>cs'. neighbours_loop rt b count i cs = Inr cs' \<and>
               distinct (map ID cs') \<and>
               (\<forall>c \<in> set cs'. c \<in> set (all_contacts rt) \<and> valid_NodeID (ID c))"
  using i p
proof (induction "(b + 160) - i" arbitrary: i cs rule: less_induct)
  case less
  from inv have len: "length (buckets rt) = 160" by (simp add: table_invariant_def)
  show ?case
  proof (cases "int (length cs) < count \<and> (i \<le> b \<or> b + i < 160)")
    case False
    then have "neighbours_loop rt b count i cs = Inr cs"
      by (subst neighbours_loop.simps) (simp only: if_False)
    with less.prems(2) show ?thesis by (simp add: pool_invariant_def)
  next
    case True
    let ?P = "\<lambda>c. c \<in> set (all_contacts rt) \<and> valid_NodeID (ID c) \<and>
        b < getBucketIndex rt (ID c) + Suc i \<and> getBucketIndex rt (ID c) < b + Suc i"
    from less.prems(2) have d0: "distinct (map ID cs)"
      and m0: "\<forall>c \<in> set cs. c \<in> set (all_contacts rt) \<and> valid_NodeID (ID c) \<and>
          b < getBucketIndex rt (ID c) + i \<and> getBucketIndex rt (ID c) < b + i"
      by (simp_all add: pool_invariant_def)
    define n1 where "n1 = nat (count - int (length cs))"
    define cs1 where "cs1 = (if i \<le> b then cs @ take n1 (contacts (buckets rt ! (b - i))) else cs)"
    define n2 where "n2 = nat (count - int (length cs1))"
    define cs2 where "cs2 = (if b + i < 160 \<and> int (length cs1) < count
        then cs1 @ take n2 (contacts (buckets rt ! (b + i))) else cs1)"
    have left: "(if i \<le> b
          then (case bucket_GetContacts rt (b - i) (count - int (length cs)) of
                  Inl p \<Rightarrow> Inl p | Inr l \<Rightarrow> Inr (cs @ l))
          else Inr cs) = Inr cs1"
      using True b len by (simp add: bucket_GetContacts_nonneg cs1_def n1_def)
    have right: "(if b + i < 160 \<and> int (length cs1) < count
          then (case bucket_GetContacts rt (b + i) (count - int (length cs1)) of
                  Inl p \<Rightarrow> Inl p | Inr r \<Rightarrow> Inr (cs1 @ r))
          else Inr cs1) = Inr cs2"
      using len by (simp add: bucket_GetContacts_nonneg cs2_def n2_def)
    have step: "neighbours_loop rt b count i cs = neighbours_loop rt b count (Suc i) cs2"
      by (subst neighbours_loop.simps) (simp only: True simp_thms if_True left right sum.case)
    have p1: "distinct (map ID cs1) \<and> (\<forall>c \<in> set cs1. ?P c \<and> getBucketIndex rt (ID c) \<noteq> b + i)"
    proof (cases "i \<le> b")
      case False
      with d0 m0 show ?thesis by (auto simp add: cs1_def)
    next
      case le: True
      have "distinct (map ID (cs @ take n1 (contacts (buckets rt ! (b - i))))) \<and>
          (\<forall>c \<in> set (cs @ take n1 (contacts (buckets rt ! (b - i)))).
             ?P c \<and> getBucketIndex rt (ID c) \<noteq> b + i)"
      proof (rule pool_extend [OF inv _ d0])
        show "b - i < 160" using b by simp
        show "\<forall>c \<in> set cs. (?P c \<and> getBucketIndex rt (ID c) \<noteq> b + i) \<and>
            getBucketIndex rt (ID c) \<noteq> b - i"
          using m0 le by auto
        show "?P c \<and> getBucketIndex rt (ID c) \<noteq> b + i"
          if "c \<in> set (all_contacts rt)" "valid_NodeID (ID c)" "getBucketIndex rt (ID c) = b - i" for c
          using that le less.prems(1) by auto
      qed
      with le show ?thesis by (simp add: cs1_def)
    qed
    have p2: "distinct (map ID cs2) \<and> (\<forall>c \<in> set cs2. ?P c)"
    proof (cases "b + i < 160 \<and> int (length cs1) < count")
      case False
      with p1 show ?thesis by (auto simp add: cs2_def)
    next
      case r: True
      have "distinct (map ID (cs1 @ take n2 (contacts (buckets rt ! (b + i))))) \<and>
          (\<forall>c \<in> set (cs1 @ take n2 (contacts (buckets rt ! (b + i)))). ?P c)"
      proof (rule pool_extend [OF inv _ p1 [THEN conjunct1]])
        show "b + i < 160" using r by simp
        show "\<forall>c \<in> set cs1. ?P c \<and> getBucketIndex rt (ID c) \<noteq> b + i"
          using p1 by simp
        show "?P c"
          if "c \<in> set (all_contacts rt)" "valid_NodeID (ID c)" "getBucketIndex rt (ID c) = b + i" for c
          using that by auto
      qed
      with r show ?thesis by (simp add: cs2_def)
    qed
    then have "pool_invariant rt b (Suc i) cs2" by (simp add: pool_invariant_def)
    moreover have "b + 160 - Suc i < b + 160 - i" using True b by auto
    ultimately have "\<exists>cs'. neighbours_loop rt b count (Suc i) cs2 = Inr cs' \<and>
        distinct (map ID cs') \<and>
        (\<forall>c \<in> set cs'. c \<in> set (all_contacts rt) \<and> valid_NodeID (ID c))"
      using less.hyps [of "Suc i" cs2] by simp
    with step show ?thesis by simp
  qed
qed

lemma set_insertion_step: "set (insertion_step lt x ys) = insert x (set ys)"
  by (induction ys) auto


lemma distinct_insertion_step:
  "distinct (map f (insertion_step lt x ys)) \<longleftrightarrow> f x \<notin> f ` set ys \<and> distinct (map f ys)"
  by (induction ys) (auto simp add: set_insertion_step)

lemma set_insertion_fold:
  "set (foldl (\<lambda>front x. insertion_step lt x front) acc xs) = set acc \<union> set xs"
  by (induction xs arbitrary: acc) (auto simp add: set_insertion_step)


lemma distinct_insertion_fold:
  "distinct (map f (foldl (\<lambda>front x. insertion_step lt x front) acc xs))
   \<longleftrightarrow> distinct (map f (acc @ xs))"
proof (induction xs arbitrary: acc)
  case Nil
  then show ?case by simp
next
  case (Cons x xs)
  have "distinct (map f (insertion_step lt x acc @ xs)) \<longleftrightarrow> distinct (map f (acc @ x # xs))"
    by (auto simp add: distinct_insertion_step set_insertion_step)
  with Cons [of "insertion_step lt x acc"] show ?case by simp
qed

lemma set_sort_Slice: "set (sort_Slice lt xs) = set xs"
  by (simp add: sort_Slice_def set_insertion_fold)


lemma distinct_sort_Slice: "distinct (map f (sort_Slice lt xs)) \<longleftrightarrow> distinct (map f xs)"
  using distinct_insertion_fold [of f lt "[]" xs]
  by (simp add: sort_Slice_def rev_map [symmetric])

lemma sorted_insertion_step:
  fixes key :: "'a \<Rightarrow> nat"
  assumes "\<forall>y \<in> set ys. lt x y \<longleftrightarrow> key x < key y" and "sorted (map key (rev ys))"
  shows "sorted (map key (rev (insertion_step lt x ys)))"
  using assms
proof (induction ys)
  case Nil
  then show ?case by simp
next
  case (Cons y ys)
  from Cons.prems(2) have s: "sorted (map key (rev ys))"
    and le: "\<forall>z \<in> set ys. key z \<le> key y"
    by (auto simp add: sorted_append)
  show ?case
  proof (cases "lt x y")
    case True
    with Cons.prems(1) have "key x < key y" by simp
    moreover from Cons.IH s Cons.prems(1) have "sorted (map key (rev (insertion_step lt x ys)))"
      by simp
    ultimately show ?thesis
      using True le by (auto simp add: sorted_append set_insertion_step)
  next
    case False
    with Cons.prems(1) have "key y \<le> key x" by auto
    with Cons.prems(2) le False show ?thesis
      by (auto simp add: sorted_append)
  qed
qed

lemma sorted_insertion_fold:
  fixes key :: "'a \<Rightarrow> nat"
  assumes "\<forall>x \<in> set acc \<union> set xs. \<forall>y \<in> set acc \<union> set xs. lt x y \<longleftrightarrow> key x < key y"
    and "sorted (map key (rev acc))"
  shows "sorted (map key (rev (foldl (\<lambda>front x. insertion_step lt x front) acc xs)))"
  using assms
proof (induction xs arbitrary: acc)
  case Nil
  then show ?case by simp
next
  case (Cons x xs)
  from Cons.prems have "sorted (map key (rev (insertion_step lt x acc)))"
    by (intro sorted_insertion_step) auto
  moreover from Cons.prems(1)
  have "\<forall>a \<in> set (insertion_step lt x acc) \<union> set xs.
      \<forall>b \<in> set (insertion_step lt x acc) \<union> set xs. lt a b \<longleftrightarrow> key a < key b"
    by (auto simp add: set_insertion_step)
  ultimately show ?case using Cons.IH [of "insertion_step lt x acc"] by simp
qed

lemma sorted_sort_Slice:
  fixes key :: "'a \<Rightarrow> nat"
  assumes "\<forall>x \<in> set xs. \<forall>y \<in> set xs. lt x y \<longleftrightarrow> key x < key y"
  shows "sorted (map key (sort_Slice lt xs))"
  using sorted_insertion_fold [of "[]" xs lt key] assms
  by (simp add: sort_Slice_def)

lemma sort_Slice_unique:
  fixes key :: "'a \<Rightarrow> nat"
  assumes lt: "\<forall>x \<in> set xs. \<forall>y \<in> set xs. lt x y \<longleftrightarrow> key x < key y"
    and d: "distinct (map key xs)"
    and set: "set ys = set xs" and len: "length ys = length xs"
    and s: "sorted (map key ys)"
  shows "ys = sort_Slice lt xs"
proof -
  let ?zs = "sort_Slice lt xs"
  have "card (set (map key ys)) = card (set (map key xs))" using set by simp
  also have "\<dots> = length (map key xs)" using d by (rule distinct_card)
  finally have "card (set (map key ys)) = length (map key ys)" using len by simp
  then have dy: "distinct (map key ys)" by (rule card_distinct)
  have dz: "distinct (map key ?zs)" using d by (simp add: distinct_sort_Slice)
  have sz: "sorted (map key ?zs)" using lt by (rule sorted_sort_Slice)
  have "set (map key ys) = set (map key ?zs)" using set by (simp add: set_sort_Slice)
  with s dy sz dz have e: "map key ys = map key ?zs"
    by (rule sorted_distinct_set_unique)
  from d have "inj_on key (set xs)" by (simp add: distinct_map)
  then have "inj_on key (set ys \<union> set ?zs)" using set by (simp add: set_sort_Slice)
  with e show ?thesis by (simp add: inj_on_map_eq_map)
qed

lemma closer_big_endian:
  assumes "valid_NodeID (ID x)" and "valid_NodeID (ID y)" and "valid_NodeID target"
  shows "closer target x y \<longleftrightarrow>
         big_endian (Distance (ID x) target) < big_endian (Distance (ID y) target)"
proof -
  from assms have "length (Distance (ID x) target) = length (Distance (ID y) target)"
    by (simp add: valid_NodeID_def length_Distance)
  then show ?thesis by (simp add: closer_def lessThan_big_endian)
qed

lemma GetClosestContacts_properties:
  assumes inv: "table_invariant rt" and t: "valid_NodeID target" and n: "0 \<le> n"
  shows "\<exists>cs. GetClosestContacts rt target n = Inr cs \<and>
              sorted (map (\<lambda>c. big_endian (Distance (ID c) target)) cs) \<and>
              distinct (map ID cs) \<and>
              int (length cs) \<le> min n (int (RoutingTable_Size rt)) \<and>
              set cs \<subseteq> set (all_contacts rt) \<and>
              (\<forall>c \<in> set cs. valid_NodeID (ID c))"
proof -
  let ?b = "getBucketIndex rt target"
  let ?key = "\<lambda>c. big_endian (Distance (ID c) target)"
  from inv have vl: "valid_NodeID (localID rt)" and len: "length (buckets rt) = 160"
    by (simp_all add: table_invariant_def)
  from vl t have b: "?b < 160" by (rule getBucketIndex_less)
  let ?cs0 = "take (nat n) (contacts (buckets rt ! ?b))"
  have g0: "bucket_GetContacts rt ?b n = Inr ?cs0"
    using b len n by (simp add: bucket_GetContacts_nonneg)
  have "distinct (map ID ([] @ ?cs0)) \<and>
      (\<forall>c \<in> set ([] @ ?cs0). c \<in> set (all_contacts rt) \<and> valid_NodeID (ID c) \<and>
         ?b < getBucketIndex rt (ID c) + 1 \<and> getBucketIndex rt (ID c) < ?b + 1)"
    by (rule pool_extend [OF inv b]) simp_all
  then have "pool_invariant rt ?b 1 ?cs0" by (simp add: pool_invariant_def)
  from neighbours_loop_pool [OF inv b _ this, of n]
  obtain cs where loop: "neighbours_loop rt ?b n 1 ?cs0 = Inr cs"
    and d: "distinct (map ID cs)"
    and m: "\<forall>c \<in> set cs. c \<in> set (all_contacts rt) \<and> valid_NodeID (ID c)"
    by auto
  let ?s = "sort_Slice (closer target) cs"
  let ?r = "if int (length ?s) > n then take (nat n) ?s else ?s"
  have r: "GetClosestContacts rt target n = Inr ?r"
    by (simp only: GetClosestContacts_def Let_def g0 loop sum.case)
  have "\<forall>x \<in> set cs. \<forall>y \<in> set cs. closer target x y \<longleftrightarrow> ?key x < ?key y"
    using m t by (simp add: closer_big_endian)
  then have ss: "sorted (map ?key ?s)" by (rule sorted_sort_Slice)
  have ds: "distinct (map ID ?s)" using d by (simp add: distinct_sort_Slice)
  have sets: "set ?s = set cs" by (rule set_sort_Slice)
  have sub: "set ?r \<subseteq> set cs"
    using set_take_subset [of "nat n" ?s] sets by auto
  have sr: "sorted (map ?key ?r)"
    using ss by (simp add: take_map [symmetric] sorted_wrt_take)
  have dr: "distinct (map ID ?r)"
    using ds by (simp add: take_map [symmetric] distinct_take)
  have ln: "int (length ?r) \<le> n" using n by auto
  have "length ?r = card (set (map ID ?r))"
    using distinct_card [OF dr] by (simp only: length_map)
  also have "\<dots> \<le> card (set (map ID (all_contacts rt)))"
  proof (rule card_mono)
    show "finite (set (map ID (all_contacts rt)))" by simp
    show "set (map ID ?r) \<subseteq> set (map ID (all_contacts rt))"
      using sub m by auto
  qed
  also have "\<dots> \<le> length (map ID (all_contacts rt))" by (rule card_length)
  finally have "length ?r \<le> RoutingTable_Size rt"
    by (simp add: RoutingTable_Size_all_contacts)
  with ln have "int (length ?r) \<le> min n (int (RoutingTable_Size rt))" by simp
  moreover have "set ?r \<subseteq> set (all_contacts rt)" "\<forall>c \<in> set ?r. valid_NodeID (ID c)"
    using sub m by auto
  ultimately show ?thesis using r sr dr by blast
qed

section \<open>Sequences of routing-table operations\<close>

lemma apply_operation_invariant:
  assumes "table_invariant rt" and "valid_operation op" and "apply_operation rt op = Inr rt'"
  shows "table_invariant rt' \<and> localID rt' = localID rt"
proof (cases op)
  case (OpAddContact c now)
  with assms(2) have "valid_NodeID (ID c)" by simp
  from RoutingTable_AddContact_invariant [OF assms(1) this, of now] assms(3) OpAddContact
  show ?thesis by auto
next
  case (OpGetClosestContacts target n)
  with assms(3) have "rt' = rt" by (simp split: sum.splits)
  with assms(1) show ?thesis by simp
qed

lemma apply_operation_returns:
  assumes "table_invariant rt" and "valid_operation op" and "count_nonneg op"
  shows "\<exists>rt'. apply_operation rt op = Inr rt'"
proof (cases op)
  case (OpAddContact c now)
  with assms(2) have "valid_NodeID (ID c)" by simp
  from RoutingTable_AddContact_invariant [OF assms(1) this, of now] OpAddContact
  show ?thesis by auto
next
  case (OpGetClosestContacts target n)
  with assms have "valid_NodeID target" "0 \<le> n" by simp_all
  from GetClosestContacts_properties [OF assms(1) this] OpGetClosestContacts
  show ?thesis by auto
qed

lemma run_operations_invariant:
  assumes "table_invariant rt" and "\<forall>op \<in> set ops. valid_operation op"
    and "run_operations rt ops = Inr rt'"
  shows "table_invariant rt' \<and> localID rt' = localID rt"
  using assms
proof (induction ops arbitrary: rt)
  case Nil
  then show ?case by simp
next
  case (Cons op ops)
  from Cons.prems(3) obtain rt1 where a: "apply_operation rt op = Inr rt1"
    and r: "run_operations rt1 ops = Inr rt'"
    by (auto split: sum.splits)
  from Cons.prems(2) have "valid_operation op" by simp
  from apply_operation_invariant [OF Cons.prems(1) this a]
  have "table_invariant rt1" and l: "localID rt1 = localID rt" by simp_all
  with Cons.IH [OF _ _ r] Cons.prems(2) show ?case by simp
qed

lemma run_operations_returns:
  assumes "table_invariant rt" and "\<forall>op \<in> set ops. valid_operation op"
    and "\<forall>op \<in> set ops. count_nonneg op"
  shows "\<exists>rt'. run_operations rt ops = Inr rt'"
  using assms
proof (induction ops arbitrary: rt)
  case Nil
  then show ?case by simp
next
  case (Cons op ops)
  from Cons.prems have v: "valid_operation op" and c: "count_nonneg op" by simp_all
  from apply_operation_returns [OF Cons.prems(1) v c]
  obtain rt1 where a: "apply_operation rt op = Inr rt1" by blast
  from apply_operation_invariant [OF Cons.prems(1) v a] have "table_invariant rt1" by simp
  from Cons.IH [OF this] Cons.prems(2,3) a show ?case by simp
qed

lemma highest_set_bit_at_prefix:
  assumes "length a = length b" and "i < 8 * length a"
  shows "highest_set_bit_at (Distance a b) i \<longleftrightarrow>
         (\<forall>j \<in> {0..<i}. NodeID_bit b j = NodeID_bit a j) \<and> NodeID_bit b i \<noteq> NodeID_bit a i"
  using assms by (auto simp add: highest_set_bit_at_def NodeID_bit_Distance)

lemma getBucketIndex_highest:
  assumes "valid_NodeID (localID rt)" and "valid_NodeID c" and "c \<noteq> localID rt"
  shows "highest_set_bit_at (Distance (localID rt) c) (getBucketIndex rt c)"
proof -
  from assms have len: "length (localID rt) = length c" by (simp add: valid_NodeID_def)
  from scan_bytes_Some [OF getBucketIndex_other [OF len assms(3)]]
  show ?thesis by (simp add: highest_set_bit_at_def)
qed

lemma example_operations_valid:
  "\<forall>op \<in> set example_operations. valid_operation op \<and> count_nonneg op"
  by (simp add: example_operations_def valid_NodeID_def example_contact_def self_contact_def
      id_01_def zero_NodeID_def)

lemma valid_zero_NodeID: "valid_NodeID zero_NodeID"
  by (simp add: valid_NodeID_def zero_NodeID_def)

lemma example_table_run:
  "run_operations (NewRoutingTable zero_NodeID 0) example_operations = Inr example_table"
proof -
  have "table_invariant (NewRoutingTable zero_NodeID 0)"
    using valid_zero_NodeID by (rule table_invariant_New)
  from run_operations_returns [OF this] example_operations_valid
  obtain rt where "run_operations (NewRoutingTable zero_NodeID 0) example_operations = Inr rt"
    by blast
  then show ?thesis by (simp add: example_table_def)
qed


lemma example_table_members:
  "example_contact 1 \<in> set (contacts (buckets example_table ! 159)) \<and>
   self_contact \<in> set (contacts (buckets example_table ! 159))"
  by code_simp

text \<open>
  Claim C3, as amended. Starting from a fresh table with a 20-byte local ID, after
  every sequence of \<open>AddContact\<close> and \<open>GetClosestContacts\<close> calls that has returned,
  the bucket at index \<open>i\<close> holds only contacts whose \<open>getBucketIndex\<close> is \<open>i\<close>: a
  contact whose NodeID differs from the local ID has the highest set bit of its
  distance at position \<open>i\<close> (its first \<open>i\<close> bits match the local ID and bit \<open>i\<close>
  differs), and a contact whose NodeID is the local ID is in bucket 159. The calls all
  return when no requested count is negative.
\<close>

theorem bucket_invariant_preserved:
  assumes "valid_NodeID lid" and "\<forall>op \<in> set ops. valid_operation op"
  shows "(\<forall>rt. run_operations (NewRoutingTable lid t0) ops = Inr rt \<longrightarrow>
            localID rt = lid \<and> length (buckets rt) = 160 \<and>
            (\<forall>i \<in> {0..<160}. \<forall>c \<in> set (contacts (buckets rt ! i)).
               getBucketIndex rt (ID c) = i \<and>
               (ID c \<noteq> lid \<longrightarrow>
                  highest_set_bit_at (Distance lid (ID c)) i \<and>
                  (\<forall>j \<in> {0..<i}. NodeID_bit (ID c) j = NodeID_bit lid j) \<and>
                  NodeID_bit (ID c) i \<noteq> NodeID_bit lid i) \<and>
               (ID c = lid \<longrightarrow> i = 159))) \<and>
         ((\<forall>op \<in> set ops. count_nonneg op) \<longrightarrow>
            (\<exists>rt. run_operations (NewRoutingTable lid t0) ops = Inr rt))"
proof (intro conjI allI impI)
  fix rt
  assume run: "run_operations (NewRoutingTable lid t0) ops = Inr rt"
  have inv0: "table_invariant (NewRoutingTable lid t0)"
    using assms(1) by (rule table_invariant_New)
  from run_operations_invariant [OF inv0 assms(2) run]
  have inv: "table_invariant rt" and l: "localID rt = lid"
    by (simp_all add: NewRoutingTable_def)
  show "localID rt = lid" by (rule l)
  show "length (buckets rt) = 160" using inv by (simp add: table_invariant_def)
  show "\<forall>i \<in> {0..<160}. \<forall>c \<in> set (contacts (buckets rt ! i)).
          getBucketIndex rt (ID c) = i \<and>
          (ID c \<noteq> lid \<longrightarrow>
             highest_set_bit_at (Distance lid (ID c)) i \<and>
             (\<forall>j \<in> {0..<i}. NodeID_bit (ID c) j = NodeID_bit lid j) \<and>
             NodeID_bit (ID c) i \<noteq> NodeID_bit lid i) \<and>
          (ID c = lid \<longrightarrow> i = 159)"
  proof (intro ballI)
    fix i :: nat and c
    assume i: "i \<in> {0..<160}" and c: "c \<in> set (contacts (buckets rt ! i))"
    from inv i c have vc: "valid_NodeID (ID c)" and g: "getBucketIndex rt (ID c) = i"
      by (simp_all add: table_invariant_def)
    from inv have vl: "valid_NodeID (localID rt)" by (simp add: table_invariant_def)
    have other: "highest_set_bit_at (Distance lid (ID c)) i \<and>
        (\<forall>j \<in> {0..<i}. NodeID_bit (ID c) j = NodeID_bit lid j) \<and>
        NodeID_bit (ID c) i \<noteq> NodeID_bit lid i" if ne: "ID c \<noteq> lid"
    proof -
      from getBucketIndex_highest [OF vl vc] ne l g
      have h: "highest_set_bit_at (Distance lid (ID c)) i" by simp
      have len: "length lid = length (ID c)" "i < 8 * length lid"
        using vl vc l i by (simp_all add: valid_NodeID_def)
      from h highest_set_bit_at_prefix [OF len] show ?thesis by simp
    qed
    have self: "i = 159" if "ID c = lid"
      using that g l getBucketIndex_self [of rt] by simp
    from g other self
    show "getBucketIndex rt (ID c) = i \<and>
          (ID c \<noteq> lid \<longrightarrow>
             highest_set_bit_at (Distance lid (ID c)) i \<and>
             (\<forall>j \<in> {0..<i}. NodeID_bit (ID c) j = NodeID_bit lid j) \<and>
             NodeID_bit (ID c) i \<noteq> NodeID_bit lid i) \<and>
          (ID c = lid \<longrightarrow> i = 159)"
      by blast
  qed
next
  assume "\<forall>op \<in> set ops. count_nonneg op"
  with run_operations_returns [OF table_invariant_New [OF assms(1)] assms(2)]
  show "\<exists>rt. run_operations (NewRoutingTable lid t0) ops = Inr rt" by simp
qed

theorem bucket_invariant_preserved_witness:
  "valid_NodeID zero_NodeID \<and>
   list_all valid_operation example_operations \<and>
   list_all count_nonneg example_operations \<and>
   run_operations (NewRoutingTable zero_NodeID 0) example_operations = Inr example_table \<and>
   (159::nat) \<in> {0..<160} \<and>
   example_contact 1 \<in> set (contacts (buckets example_table ! 159)) \<and>
   ID (example_contact 1) \<noteq> zero_NodeID \<and>
   self_contact \<in> set (contacts (buckets example_table ! 159)) \<and>
   ID self_contact = zero_NodeID \<and>
   getBucketIndex example_table (ID (example_contact 1)) = 159 \<and>
   highest_set_bit_at (Distance zero_NodeID (ID (example_contact 1))) 159 \<and>
   getBucketIndex example_table (ID self_contact) = 159"
proof -
  have v: "\<forall>op \<in> set example_operations. valid_operation op"
    and n: "\<forall>op \<in> set example_operations. count_nonneg op"
    using example_operations_valid by simp_all
  have m1: "example_contact 1 \<in> set (contacts (buckets example_table ! 159))"
    and m2: "self_contact \<in> set (contacts (buckets example_table ! 159))"
    using example_table_members by simp_all
  have ne: "ID (example_contact 1) \<noteq> zero_NodeID" by code_simp
  have eq: "ID self_contact = zero_NodeID" by (simp add: self_contact_def)
  have i: "(159::nat) \<in> {0..<160}" by simp
  note t = bucket_invariant_preserved [OF valid_zero_NodeID v, of 0]
  note a = t [THEN conjunct1, THEN spec, THEN mp, OF example_table_run,
      THEN conjunct2, THEN conjunct2, THEN bspec, OF i]
  note a1 = a [THEN bspec, OF m1]
  note a2 = a [THEN bspec, OF m2]
  note c1 = a1 [THEN conjunct1]
  note c2 = a1 [THEN conjunct2, THEN conjunct1, THEN mp, OF ne, THEN conjunct1]
  note c3 = a2 [THEN conjunct1]
  note c4 = t [THEN conjunct2, THEN mp, OF n]
  have v': "list_all valid_operation example_operations"
    and n': "list_all count_nonneg example_operations"
    using v n by (simp_all add: list_all_iff)
  show ?thesis
    by (intro conjI) (rule valid_zero_NodeID v' n' example_table_run i m1 m2 ne eq c1 c2 c3)+
qed

text \<open>
  Claim C3 as stated fails: a fresh table satisfies the specified invariant, and after
  one \<open>AddContact\<close> of a contact with the table's own ID, bucket 159 holds a contact
  whose distance to the local ID has no set bit.
\<close>

theorem specified_bucket_invariant_counterexample:
  "specified_bucket_invariant (NewRoutingTable zero_NodeID 0) \<and>
   valid_operation (OpAddContact self_contact 1) \<and>
   (case run_operations (NewRoutingTable zero_NodeID 0) [OpAddContact self_contact 1] of
      Inl p \<Rightarrow> False
    | Inr rt \<Rightarrow> self_contact \<in> set (contacts (buckets rt ! 159)) \<and>
               \<not> highest_set_bit_at (Distance (localID rt) (ID self_contact)) 159 \<and>
               \<not> specified_bucket_invariant rt)"
proof -
  let ?new = "NewRoutingTable zero_NodeID 0"
  let ?kb = "snd (KBucket_AddContact (NewKBucket 0) self_contact 1)"
  let ?after = "?new\<lparr>buckets := (buckets ?new)[159 := ?kb]\<rparr>"
  have l: "localID ?new = zero_NodeID" and len: "length (buckets ?new) = 160"
    and b: "buckets ?new ! 159 = NewKBucket 0"
    by (simp_all add: NewRoutingTable_def)
  have s0: "specified_bucket_invariant ?new"
    by (simp add: specified_bucket_invariant_def NewRoutingTable_def NewKBucket_def)
  have v: "valid_operation (OpAddContact self_contact 1)"
    by (simp add: self_contact_def valid_zero_NodeID)
  have g: "getBucketIndex ?new (ID self_contact) = 159"
    using getBucketIndex_self [of ?new] by (simp add: l self_contact_def)
  have r: "run_operations ?new [OpAddContact self_contact 1] = Inr ?after"
    by (simp add: RoutingTable_AddContact_def g len b)
  have "contacts ?kb = [self_contact]"
    by (simp add: KBucket_AddContact_def NewKBucket_def K_def)
  then have m: "self_contact \<in> set (contacts (buckets ?after ! 159))"
    by (simp add: len)
  have la: "localID ?after = zero_NodeID" by (simp add: l)
  have ids: "ID self_contact = zero_NodeID" by (simp add: self_contact_def)
  have "Distance (localID ?after) (ID self_contact) = replicate (length zero_NodeID) 0"
    unfolding la ids by (rule Distance_self)
  then have h: "\<not> highest_set_bit_at (Distance (localID ?after) (ID self_contact)) 159"
    by (simp only: highest_set_bit_at_def NodeID_bit_replicate_zero simp_thms)
  have i: "(159::nat) \<in> {0..<length (buckets ?after)}" by (simp add: len)
  from i m h have n: "\<not> specified_bucket_invariant ?after"
    unfolding specified_bucket_invariant_def by blast
  from s0 v m h n show ?thesis by (simp only: r sum.case simp_thms)
qed

text \<open>
  Claim C1. For every table reached from a fresh one by \<open>AddContact\<close> and
  \<open>GetClosestContacts\<close> calls, every 20-byte target and every count \<open>n\<close>,
  \<open>GetClosestContacts target n\<close> returns contacts of the table in non-decreasing
  order of their XOR distance to the target, read as an unsigned big-endian integer
  (no contact is byte-lexicographically closer than an earlier one), with no NodeID
  twice, and at most \<open>min n (Size rt)\<close> of them. A count is a number of contacts,
  \<open>0 \<le> n\<close>: the callers pass \<open>Alpha\<close> and \<open>K\<close>, and no result has a negative
  length.
\<close>

theorem GetClosestContacts_sorted_distinct_bounded:
  assumes "valid_NodeID lid" and "\<forall>op \<in> set ops. valid_operation op"
    and "run_operations (NewRoutingTable lid t0) ops = Inr rt"
    and "valid_NodeID target" and "0 \<le> n"
  shows "\<exists>cs. GetClosestContacts rt target n = Inr cs \<and>
              sorted (map (\<lambda>c. big_endian (Distance (ID c) target)) cs) \<and>
              sorted_wrt (\<lambda>x y. \<not> lessThan (Distance (ID y) target) (Distance (ID x) target)) cs \<and>
              distinct (map ID cs) \<and>
              int (length cs) \<le> min n (int (RoutingTable_Size rt)) \<and>
              set cs \<subseteq> set (all_contacts rt)"
proof -
  let ?key = "\<lambda>c. big_endian (Distance (ID c) target)"
  have "table_invariant (NewRoutingTable lid t0)"
    using assms(1) by (rule table_invariant_New)
  from run_operations_invariant [OF this assms(2,3)] have inv: "table_invariant rt" by simp
  from GetClosestContacts_properties [OF inv assms(4,5)]
  obtain cs where r: "GetClosestContacts rt target n = Inr cs"
    and s: "sorted (map ?key cs)" and d: "distinct (map ID cs)"
    and l: "int (length cs) \<le> min n (int (RoutingTable_Size rt))"
    and sub: "set cs \<subseteq> set (all_contacts rt)"
    and v: "\<forall>c \<in> set cs. valid_NodeID (ID c)"
    by blast
  from s have "sorted_wrt (\<lambda>x y. ?key x \<le> ?key y) cs" by (simp add: sorted_map)
  then have "sorted_wrt (\<lambda>x y. \<not> lessThan (Distance (ID y) target) (Distance (ID x) target)) cs"
  proof (rule sorted_wrt_mono_rel [rotated])
    fix x y
    assume "x \<in> set cs" "y \<in> set cs" "?key x \<le> ?key y"
    with v assms(4) closer_big_endian [of y x target]
    show "\<not> lessThan (Distance (ID y) target) (Distance (ID x) target)"
      by (simp add: closer_def)
  qed
  with r s d l sub show ?thesis by blast
qed

theorem GetClosestContacts_sorted_distinct_bounded_witness:
  "valid_NodeID zero_NodeID \<and>
   list_all valid_operation example_operations \<and>
   run_operations (NewRoutingTable zero_NodeID 0) example_operations = Inr example_table \<and>
   valid_NodeID id_01 \<and> (0::int) \<le> 2 \<and>
   (\<exists>cs. GetClosestContacts example_table id_01 2 = Inr cs \<and>
         sorted (map (\<lambda>c. big_endian (Distance (ID c) id_01)) cs) \<and>
         sorted_wrt (\<lambda>x y. \<not> lessThan (Distance (ID y) id_01) (Distance (ID x) id_01)) cs \<and>
         distinct (map ID cs) \<and>
         int (length cs) \<le> min 2 (int (RoutingTable_Size example_table)) \<and>
         set cs \<subseteq> set (all_contacts example_table))"
proof -
  have v: "\<forall>op \<in> set example_operations. valid_operation op"
    using example_operations_valid by simp
  have t: "valid_NodeID id_01" by (simp add: valid_NodeID_def id_01_def)
  have n: "(0::int) \<le> 2" by simp
  have v': "list_all valid_operation example_operations"
    using v by (simp add: list_all_iff)
  note c = GetClosestContacts_sorted_distinct_bounded
    [OF valid_zero_NodeID v example_table_run t n]
  show ?thesis
    by (intro conjI) (rule valid_zero_NodeID v' example_table_run t n c)+
qed

text \<open>
  Outside the counts the callers pass: a negative count reaches \<^verbatim>\<open>make\<close> as a
  capacity in \<^verbatim>\<open>GetContacts\<close>, which panics, on every table.
\<close>

lemma GetClosestContacts_negative_count:
  assumes "table_invariant rt" and "valid_NodeID target" and "n < 0"
  shows "GetClosestContacts rt target n = Inl MakesliceCapOutOfRange"
proof -
  from assms(1) have "valid_NodeID (localID rt)" and "length (buckets rt) = 160"
    by (simp_all add: table_invariant_def)
  with assms(2) have "getBucketIndex rt target < length (buckets rt)"
    using getBucketIndex_less [of rt target] by simp
  with assms(3) show ?thesis
    by (simp add: GetClosestContacts_def bucket_GetContacts_def GetContacts_negative)
qed

section \<open>The FindNode request handler\<close>

lemma hex_Decode_from_fits:
  "i + length src div 2 \<le> length dst \<Longrightarrow>
   \<exists>dst' n err. hex_Decode_from i dst src = Inr (dst', n, err) \<and>
     (err = None \<longleftrightarrow> valid_hex src) \<and> (err = None \<longrightarrow> n = i + length src div 2)"
proof (induction i dst src rule: hex_Decode_from.induct)
  case (1 i dst p q src)
  show ?case
  proof (cases "fromHexChar p")
    case None
    then show ?thesis by (simp add: valid_hex_def)
  next
    case a: (Some a)
    show ?thesis
    proof (cases "fromHexChar q")
      case None
      with a show ?thesis by (simp add: valid_hex_def)
    next
      case b: (Some b)
      from "1.prems" have i: "i < length dst" by simp
      with "1.prems" have "Suc i + length src div 2 \<le> length (dst[i := push_bit 4 a OR b])"
        by simp
      from "1.IH" [OF a b i this] a b i show ?thesis
        by (auto simp add: valid_hex_def)
    qed
  qed
next
  case (2 i dst p)
  then show ?case by (cases "fromHexChar p") (simp_all add: valid_hex_def)
next
  case (3 i dst)
  then show ?case by (simp add: valid_hex_def)
qed

text \<open>
  What the handler does for the targets it can decode without writing past the
  20-byte target: a missing target, and a target of at most 41 characters that is not
  valid hexadecimal or has fewer than 40 characters, get status 400, and the routing
  table is the one before the request.
\<close>

lemma handleFindNode_rejects:
  "handleFindNode rt None = Inr (BadRequest ''Missing target parameter'', rt)"
  "length s \<le> 41 \<Longrightarrow> \<not> valid_hex s \<or> length s < 40 \<Longrightarrow>
   \<exists>msg. handleFindNode rt (Some s) = Inr (BadRequest msg, rt)"
proof -
  show "handleFindNode rt None = Inr (BadRequest ''Missing target parameter'', rt)"
    by (simp add: handleFindNode_def Query_Get_target_def)
  assume len: "length s \<le> 41" and bad: "\<not> valid_hex s \<or> length s < 40"
  show "\<exists>msg. handleFindNode rt (Some s) = Inr (BadRequest msg, rt)"
  proof (cases "s = []")
    case True
    then show ?thesis by (simp add: handleFindNode_def Query_Get_target_def)
  next
    case False
    from len have "0 + length s div 2 \<le> length (replicate 20 (0::byte))" by simp
    from hex_Decode_from_fits [OF this]
    obtain dst' n err where d: "hex_Decode (replicate 20 0) s = Inr (dst', n, err)"
      and e: "err = None \<longleftrightarrow> valid_hex s" and m: "err = None \<longrightarrow> n = length s div 2"
      by (auto simp add: hex_Decode_def)
    from bad e m have "err \<noteq> None \<or> n \<noteq> 20" by auto
    with False d show ?thesis
      by (auto simp add: handleFindNode_def Query_Get_target_def)
  qed
qed

lemma hex_Decode_overlong:
  "hex_Decode (replicate 20 0) overlong_target = Inl IndexOutOfRange"
  by code_simp

text \<open>
  Claim C9 on the code. The target \<open>overlong_target\<close> is present and is not valid
  hexadecimal, and for every routing table the handler does not answer with status 400:
  \<^verbatim>\<open>hex.Decode\<close> writes the 21st byte past the end of the 20-byte target and the
  handler panics.
\<close>

theorem handleFindNode_overlong_target_panics:
  "Query_Get_target (Some overlong_target) \<noteq> [] \<and>
   \<not> valid_hex overlong_target \<and>
   handleFindNode rt (Some overlong_target) = Inl IndexOutOfRange"
proof -
  have q: "Query_Get_target (Some overlong_target) = overlong_target"
    by (simp add: Query_Get_target_def)
  have a: "Query_Get_target (Some overlong_target) \<noteq> []"
    unfolding q by (simp add: overlong_target_def)
  have b: "\<not> valid_hex overlong_target" by code_simp
  from a have "handleFindNode rt (Some overlong_target) = Inl IndexOutOfRange"
    by (simp add: handleFindNode_def q hex_Decode_overlong)
  with a b show ?thesis by simp
qed

theorem handleFindNode_overlong_target_panics_witness:
  "handleFindNode (NewRoutingTable zero_NodeID 0) (Some overlong_target) = Inl IndexOutOfRange \<and>
   \<not> valid_hex overlong_target \<and>
   length overlong_target = 44"
proof -
  note t = handleFindNode_overlong_target_panics [of "NewRoutingTable zero_NodeID 0"]
  have "length overlong_target = 44" by (simp add: overlong_target_def)
  with t show ?thesis by simp
qed

section \<open>The seeds of a lookup\<close>



section \<open>The receiving loop of a lookup\<close>






section \<open>FindNode\<close>














end
